theory Spec2Isabelle
  imports Main "HOL-Library.Sublist"
begin

section \<open>Data model of the service worker\<close>

text \<open>
  The service worker keeps two pieces of state: the in-memory \<open>requestCache\<close>
  (requestId to pending metadata) and the session storage area, which holds one table
  per tab under the key \<^verbatim>\<open>tab:<tabId>\<close>. Storage keys are modelled by the tab id
  itself, since the key is the tab id behind a fixed prefix.
\<close>

datatype error = StorageError

text \<open>A status handed to \<open>upsertApiCall\<close>: a numeric code or the string \<open>"ERR"\<close>.\<close>

datatype Status = Code int | ERR

record Settings =
  captureTypes :: "string list"
  includeQueryString :: bool
  apiIncludePatterns :: "string list option"
  apiExcludePatterns :: "string list option"
  maxPerTab :: int

record Meta =
  m_tabId :: int
  m_method :: string
  m_endpoint :: string
  m_sizeBytes :: "int option"

record EndpointRecord =
  key :: string
  http_method :: string
  endpoint :: string
  count :: nat
  firstSeen :: int
  lastSeen :: int
  lastStatus :: "Status option"
  statusCounts :: "string \<rightharpoonup> nat"
  sizeKnownCount :: nat
  sizeSum :: int
  lastSize :: "int option"

record TabData =
  items :: "string \<rightharpoonup> EndpointRecord"
  order :: "string list"

type_synonym Session = "int \<rightharpoonup> TabData"

record World =
  requestCache :: "string \<rightharpoonup> Meta"
  session :: Session

text \<open>
  What one listener invocation gets from outside: the object \<open>getSettings\<close> resolves
  to, the value of \<open>Date.now()\<close>, and whether each storage call it may await rejects.
\<close>

record Env =
  settings :: Settings
  now :: int
  local_get_fails :: bool
  session_get_fails :: bool
  session_set_fails :: bool
  session_remove_fails :: bool

text \<open>
  A header value is given by its UTF-16 code units, as \<open>parseInt\<close> tells apart white
  space beyond the ASCII range. The other strings are only compared and concatenated, or,
  for header names, put in lower case and compared with an ASCII text.
\<close>

type_synonym utf16 = "nat list"

record HttpHeader =
  name_h :: string
  value_h :: "utf16 option"

text \<open>The \<open>details\<close> object of a webRequest event; absent fields are \<open>None\<close>.\<close>

record Details =
  d_requestId :: string
  d_tabId :: int
  d_type :: string
  d_url :: string
  d_method :: "string option"
  d_responseHeaders :: "HttpHeader list option"
  d_statusCode :: "int option"

text \<open>The fields of a parsed \<open>URL\<close> object that the code reads.\<close>

record URL =
  origin :: string
  pathname :: string
  search :: string

section \<open>Pattern classifier and URL normaliser\<close>

text \<open>
  \<open>RegExp\<close> and \<open>URL\<close> belong to the host platform. They are parameters:
  \<open>RegExp_new p\<close> is the result of \<open>new RegExp(p, "i")\<close> (\<open>None\<close> when it throws),
  \<open>RegExp_test r s\<close> is \<open>r.test(s)\<close> (stateless, as the flag is \<open>"i"\<close> only), and
  \<open>URL_new s\<close> is \<open>new URL(s)\<close> (\<open>None\<close> when it throws).
\<close>

fun safeRegexList :: "(string \<Rightarrow> 'r option) \<Rightarrow> string list option \<Rightarrow> 'r list" where
  "safeRegexList RegExp_new None = []"
| "safeRegexList RegExp_new (Some []) = []"
| "safeRegexList RegExp_new (Some (p # ps)) =
     (case RegExp_new p of
        Some r \<Rightarrow> r # safeRegexList RegExp_new (Some ps)
      | None \<Rightarrow> safeRegexList RegExp_new (Some ps))"

definition normalizeUrl :: "(string \<Rightarrow> URL option) \<Rightarrow> string \<Rightarrow> bool \<Rightarrow> string" where
  "normalizeUrl URL_new rawUrl includeQS =
     (case URL_new rawUrl of
        Some u \<Rightarrow> if includeQS then origin u @ pathname u @ search u
                  else origin u @ pathname u
      | None \<Rightarrow> rawUrl)"

text \<open>
  In \<open>isApiUrl\<close> the target \<open>url || ""\<close> is the url itself, as the url is a string.
\<close>

definition isApiUrl ::
  "(string \<Rightarrow> 'r option) \<Rightarrow> ('r \<Rightarrow> string \<Rightarrow> bool) \<Rightarrow> string \<Rightarrow> Settings \<Rightarrow> bool" where
  "isApiUrl RegExp_new RegExp_test url st =
     (let inc = safeRegexList RegExp_new (apiIncludePatterns st);
          exc = safeRegexList RegExp_new (apiExcludePatterns st);
          target = url;
          included = (if inc \<noteq> [] then list_ex (\<lambda>r. RegExp_test r target) inc else True);
          excluded = (if exc \<noteq> [] then list_ex (\<lambda>r. RegExp_test r target) exc else False)
      in included \<and> \<not> excluded)"

section \<open>Header lookup and integer parsing\<close>

text \<open>
  \<open>toLowerCase\<close> on the ASCII letters. No other character becomes a character of
  \<open>content-length\<close> in lower case, so the comparison of header names is not affected.
\<close>

definition toLowerCase_char :: "char \<Rightarrow> char" where
  "toLowerCase_char c =
     (let n = (of_char c :: nat) in if 65 \<le> n \<and> n \<le> 90 then char_of (n + 32) else c)"

definition toLowerCase :: "string \<Rightarrow> string" where
  "toLowerCase s = map toLowerCase_char s"













section \<open>Aggregation store\<close>

definition getTabData :: "Session \<Rightarrow> int \<Rightarrow> TabData" where
  "getTabData sess tabId =
     (case sess tabId of Some d \<Rightarrow> d | None \<Rightarrow> \<lparr>items = Map.empty, order = []\<rparr>)"

definition setTabData :: "Env \<Rightarrow> int \<Rightarrow> TabData \<Rightarrow> Session \<Rightarrow> error + Session" where
  "setTabData env tabId data sess =
     (if session_set_fails env then Inl StorageError else Inr (sess(tabId \<mapsto> data)))"

definition makeKey :: "string \<Rightarrow> string \<Rightarrow> string" where
  "makeKey m e = m @ '' '' @ e"

text \<open>\<open>String(n)\<close> for an integer \<open>n\<close>: its decimal digits, with a minus sign if negative.\<close>

function digitsOfNat :: "nat \<Rightarrow> string" where
  "digitsOfNat n =
     (if n < 10 then [char_of (48 + n)]
      else digitsOfNat (n div 10) @ [char_of (48 + n mod 10)])"
  by pat_completeness auto
termination
  by (relation "measure id") auto

declare digitsOfNat.simps [simp del]

fun String_of :: "Status \<Rightarrow> string" where
  "String_of ERR = ''ERR''"
| "String_of (Code n) = (if n < 0 then CHR ''-'' # digitsOfNat (nat (- n)) else digitsOfNat (nat n))"

definition newRecord :: "string \<Rightarrow> string \<Rightarrow> string \<Rightarrow> int \<Rightarrow> EndpointRecord" where
  "newRecord k m e t =
     \<lparr>key = k, http_method = m, endpoint = e, count = 0, firstSeen = t, lastSeen = t,
      lastStatus = None, statusCounts = Map.empty, sizeKnownCount = 0, sizeSum = 0,
      lastSize = None\<rparr>"

text \<open>Lines 133 to 147 of the service worker: the update of the record \<open>it\<close>.\<close>

definition updateRecord :: "int \<Rightarrow> Status option \<Rightarrow> int option \<Rightarrow> EndpointRecord \<Rightarrow> EndpointRecord" where
  "updateRecord t statusCode sizeBytes it =
     (let it1 = it\<lparr>count := count it + 1, lastSeen := t\<rparr>;
          it2 = (case statusCode of
                   None \<Rightarrow> it1
                 | Some sc \<Rightarrow>
                     it1\<lparr>lastStatus := Some sc,
                         statusCounts := (statusCounts it1)(String_of sc \<mapsto>
                           (case statusCounts it1 (String_of sc) of None \<Rightarrow> 0 | Some c \<Rightarrow> c) + 1)\<rparr>)
      in (case sizeBytes of
            None \<Rightarrow> it2
          | Some sz \<Rightarrow>
              it2\<lparr>lastSize := Some sz, sizeKnownCount := sizeKnownCount it2 + 1,
                  sizeSum := sizeSum it2 + sz\<rparr>))"

text \<open>
  \<open>xs.splice(start)\<close> with one argument: the pair of what stays in \<open>xs\<close> and the
  removed elements that are returned. A negative \<open>start\<close> counts from the end.
\<close>

definition splice :: "int \<Rightarrow> 'a list \<Rightarrow> 'a list \<times> 'a list" where
  "splice start xs =
     (let len = int (length xs);
          s = (if start < 0 then max (len + start) 0 else min start len)
      in (take (nat s) xs, drop (nat s) xs))"

text \<open>Lines 150 to 153: the limit on the number of items of a tab.\<close>

definition evict :: "int \<Rightarrow> TabData \<Rightarrow> TabData" where
  "evict cap data =
     (if int (length (order data)) > cap then
        (case splice cap (order data) of
           (kept, removed) \<Rightarrow>
             data\<lparr>items := fold (\<lambda>rk its. its(rk := None)) removed (items data),
                  order := kept\<rparr>)
      else data)"

text \<open>Lines 113 to 153: what \<open>upsertApiCall\<close> does to the table it has read.\<close>

definition upsertTable ::
  "int \<Rightarrow> int \<Rightarrow> string \<Rightarrow> string \<Rightarrow> Status option \<Rightarrow> int option \<Rightarrow> TabData \<Rightarrow> TabData" where
  "upsertTable cap t m e statusCode sizeBytes data =
     (let k = makeKey m e;
          data1 = (case items data k of
                     None \<Rightarrow> data\<lparr>items := (items data)(k \<mapsto> newRecord k m e t),
                                   order := k # order data\<rparr>
                   | Some _ \<Rightarrow> data);
          data2 = (case items data1 k of
                     None \<Rightarrow> data1
                   | Some it \<Rightarrow>
                       data1\<lparr>items := (items data1)(k \<mapsto> updateRecord t statusCode sizeBytes it)\<rparr>)
      in evict cap data2)"

definition upsertApiCall ::
  "Env \<Rightarrow> int \<Rightarrow> string \<Rightarrow> string \<Rightarrow> Status option \<Rightarrow> int option \<Rightarrow> Session \<Rightarrow> error + Session" where
  "upsertApiCall env tabId m e statusCode sizeBytes sess =
     (if tabId < 0 then Inr sess
      else if local_get_fails env then Inl StorageError
      else if session_get_fails env then Inl StorageError
      else setTabData env tabId
             (upsertTable (maxPerTab (settings env)) (now env) m e statusCode sizeBytes
                (getTabData sess tabId))
             sess)"

section \<open>Request correlator: the four webRequest listeners\<close>

text \<open>
  A listener that awaits storage returns the error it raised, if any, together with the
  state it leaves behind. A rejected promise inside \<open>await\<close> ends the listener at that
  point: the statements after it do not run.
\<close>

definition onBeforeRequest ::
  "(string \<Rightarrow> 'r option) \<Rightarrow> ('r \<Rightarrow> string \<Rightarrow> bool) \<Rightarrow> (string \<Rightarrow> URL option) \<Rightarrow>
   Env \<Rightarrow> Details \<Rightarrow> World \<Rightarrow> error option \<times> World" where
  "onBeforeRequest RegExp_new RegExp_test URL_new env details w =
     (if local_get_fails env then (Some StorageError, w)
      else if d_type details \<notin> set (captureTypes (settings env)) then (None, w)
      else
        (let ep = normalizeUrl URL_new (d_url details) (includeQueryString (settings env))
         in if \<not> isApiUrl RegExp_new RegExp_test ep (settings env) then (None, w)
            else (None,
                  w\<lparr>requestCache := (requestCache w)(d_requestId details \<mapsto>
                      \<lparr>m_tabId = d_tabId details,
                       m_method = (case d_method details of
                                     None \<Rightarrow> ''GET''
                                   | Some md \<Rightarrow> if md = [] then ''GET'' else md),
                       m_endpoint = ep,
                       m_sizeBytes = None\<rparr>)\<rparr>)))"


definition onCompleted :: "Env \<Rightarrow> Details \<Rightarrow> World \<Rightarrow> error option \<times> World" where
  "onCompleted env details w =
     (case requestCache w (d_requestId details) of
        None \<Rightarrow> (None, w)
      | Some meta \<Rightarrow>
          (case upsertApiCall env (m_tabId meta) (m_method meta) (m_endpoint meta)
                  (map_option Code (d_statusCode details)) (m_sizeBytes meta) (session w) of
             Inl err \<Rightarrow> (Some err, w)
           | Inr sess' \<Rightarrow>
               (None, w\<lparr>session := sess',
                        requestCache := (requestCache w)(d_requestId details := None)\<rparr>)))"

definition onErrorOccurred :: "Env \<Rightarrow> Details \<Rightarrow> World \<Rightarrow> error option \<times> World" where
  "onErrorOccurred env details w =
     (case requestCache w (d_requestId details) of
        None \<Rightarrow> (None, w)
      | Some meta \<Rightarrow>
          (case upsertApiCall env (m_tabId meta) (m_method meta) (m_endpoint meta)
                  (Some ERR) (m_sizeBytes meta) (session w) of
             Inl err \<Rightarrow> (Some err, w)
           | Inr sess' \<Rightarrow>
               (None, w\<lparr>session := sess',
                        requestCache := (requestCache w)(d_requestId details := None)\<rparr>)))"

text \<open>The \<open>tabs.onRemoved\<close> listener: removes the table of the closed tab.\<close>

definition onRemoved :: "Env \<Rightarrow> int \<Rightarrow> Session \<Rightarrow> error option \<times> Session" where
  "onRemoved env tabId sess =
     (if session_remove_fails env then (Some StorageError, sess)
      else (None, sess(tabId := None)))"

text \<open>
  \<open>clearTab\<close> of the popup. Its argument is what \<open>getActiveTabId\<close> resolved to;
  \<open>!tabId\<close> holds for an absent id and for the id \<open>0\<close>. The \<open>refresh\<close> that follows
  only reads.
\<close>

definition clearTab :: "Env \<Rightarrow> int option \<Rightarrow> Session \<Rightarrow> error option \<times> Session" where
  "clearTab env active sess =
     (case active of
        None \<Rightarrow> (None, sess)
      | Some tabId \<Rightarrow>
          if tabId = 0 then (None, sess)
          else (case setTabData env tabId \<lparr>items = Map.empty, order = []\<rparr> sess of
                  Inl err \<Rightarrow> (Some err, sess)
                | Inr sess' \<Rightarrow> (None, sess')))"

section \<open>Sequences of operations\<close>

text \<open>One call of \<open>upsertApiCall\<close> on a given tab, with what it gets from outside.\<close>

record Call =
  c_env :: Env
  c_method :: string
  c_endpoint :: string
  c_status :: "Status option"
  c_size :: "int option"

definition callKey :: "Call \<Rightarrow> string" where
  "callKey c = makeKey (c_method c) (c_endpoint c)"

text \<open>
  An upsert in its two steps. Between the guard and the call of \<open>setTabData\<close> the
  function is suspended while it awaits the storage, no lock is held, and the listeners
  are not awaited by the browser: other upserts may run in between. \<open>upsertRead\<close> is
  lines 108 to 111, up to the moment the table of the tab is read (\<open>None\<close>: the tab id is
  negative and the call is over). \<open>upsertWrite\<close> is lines 113 to 155, which run without
  suspension once the table has arrived, and end with the write.
\<close>

definition upsertRead :: "Env \<Rightarrow> int \<Rightarrow> Session \<Rightarrow> error + TabData option" where
  "upsertRead env tabId sess =
     (if tabId < 0 then Inr None
      else if local_get_fails env then Inl StorageError
      else if session_get_fails env then Inl StorageError
      else Inr (Some (getTabData sess tabId)))"

definition upsertWrite ::
  "Env \<Rightarrow> int \<Rightarrow> string \<Rightarrow> string \<Rightarrow> Status option \<Rightarrow> int option \<Rightarrow> TabData \<Rightarrow> Session \<Rightarrow>
   error + Session" where
  "upsertWrite env tabId m e statusCode sizeBytes data sess =
     setTabData env tabId
       (upsertTable (maxPerTab (settings env)) (now env) m e statusCode sizeBytes data) sess"

text \<open>
  Upserts on one tab, interleaved. A step is the read of a call, which takes a ticket
  and keeps the table read with it, or the write of the call holding a ticket, which
  gives the ticket back. A rejected storage call ends the call it belongs to. A ticket in
  use cannot be taken, and a write without a ticket holder does nothing.
\<close>

datatype Step = Read nat Call | Write nat

type_synonym Flights = "nat \<rightharpoonup> Call \<times> TabData"

fun stepUpsert :: "int \<Rightarrow> Step \<Rightarrow> Session \<times> Flights \<Rightarrow> Session \<times> Flights" where
  "stepUpsert tabId (Read t c) (sess, fl) =
     (if fl t \<noteq> None then (sess, fl)
      else (case upsertRead (c_env c) tabId sess of
              Inl err \<Rightarrow> (sess, fl)
            | Inr None \<Rightarrow> (sess, fl)
            | Inr (Some d) \<Rightarrow> (sess, fl(t \<mapsto> (c, d)))))"
| "stepUpsert tabId (Write t) (sess, fl) =
     (case fl t of
        None \<Rightarrow> (sess, fl)
      | Some (c, d) \<Rightarrow>
          (case upsertWrite (c_env c) tabId (c_method c) (c_endpoint c) (c_status c) (c_size c)
                  d sess of
             Inl err \<Rightarrow> (sess, fl(t := None))
           | Inr sess' \<Rightarrow> (sess', fl(t := None))))"

definition runSteps :: "int \<Rightarrow> Step list \<Rightarrow> Session \<times> Flights \<Rightarrow> Session \<times> Flights" where
  "runSteps tabId steps st = fold (stepUpsert tabId) steps st"

text \<open>
  The schedule in which the calls do not overlap, each one writing before the next one
  reads, and the storage area it leaves when no call is in flight at the start.
\<close>

definition serial :: "Call list \<Rightarrow> Step list" where
  "serial cs = concat (map (\<lambda>c. [Read 0 c, Write 0]) cs)"

definition serialRun :: "int \<Rightarrow> Call list \<Rightarrow> Session \<Rightarrow> Session" where
  "serialRun tabId cs sess = fst (runSteps tabId (serial cs) (sess, Map.empty))"

text \<open>No storage call is rejected.\<close>

definition noFaults :: "Env \<Rightarrow> bool" where
  "noFaults env =
     (\<not> local_get_fails env \<and> \<not> session_get_fails env \<and> \<not> session_set_fails env)"

text \<open>A call whose storage accesses all succeed, under the capacity \<open>cap\<close>.\<close>

definition callOk :: "int \<Rightarrow> Call \<Rightarrow> bool" where
  "callOk cap c = (noFaults (c_env c) \<and> maxPerTab (settings (c_env c)) = cap)"

text \<open>The sum of the values of a \<open>statusCounts\<close> object.\<close>

definition statusTotal :: "(string \<rightharpoonup> nat) \<Rightarrow> nat" where
  "statusTotal sc = (\<Sum>k \<in> dom sc. the (sc k))"

text \<open>
  The operations that write the session storage area: an upsert, the popup's clear, and
  the removal on tab closure. A rejected operation leaves the storage as it was.
\<close>

datatype Op =
    Upsert Env int string string "Status option" "int option"
  | Clear Env "int option"
  | Removed Env int

fun applyOp :: "Op \<Rightarrow> Session \<Rightarrow> Session" where
  "applyOp (Upsert env tabId m e sc sz) sess =
     (case upsertApiCall env tabId m e sc sz sess of Inl _ \<Rightarrow> sess | Inr sess' \<Rightarrow> sess')"
| "applyOp (Clear env active) sess = snd (clearTab env active sess)"
| "applyOp (Removed env tabId) sess = snd (onRemoved env tabId sess)"

definition runOps :: "Op list \<Rightarrow> Session \<Rightarrow> Session" where
  "runOps ops sess = fold applyOp ops sess"

text \<open>The keys of \<open>items\<close> are the elements of \<open>order\<close>, each once.\<close>

definition tabInv :: "TabData \<Rightarrow> bool" where
  "tabInv d = (dom (items d) = set (order d) \<and> distinct (order d))"

text \<open>Every stored table satisfies \<open>tabInv\<close>.\<close>

definition sessInv :: "Session \<Rightarrow> bool" where
  "sessInv sess = (\<forall>tab d. sess tab = Some d \<longrightarrow> tabInv d)"

section \<open>Example data\<close>

text \<open>
  A concrete environment: capacity \<open>cap\<close>, clock \<open>t\<close>, no rejected storage call.
\<close>

definition exampleEnv :: "int \<Rightarrow> int \<Rightarrow> Env" where
  "exampleEnv cap t =
     \<lparr>settings = \<lparr>captureTypes = [''fetch''], includeQueryString = False,
                  apiIncludePatterns = Some [''/api''], apiExcludePatterns = Some [''.js''],
                  maxPerTab = cap\<rparr>,
      now = t, local_get_fails = False, session_get_fails = False,
      session_set_fails = False, session_remove_fails = False\<rparr>"

text \<open>An environment in which every storage call is rejected, and sample event data.\<close>

definition failingEnv :: Env where
  "failingEnv = (exampleEnv 10 0)\<lparr>local_get_fails := True, session_get_fails := True,
     session_set_fails := True, session_remove_fails := True\<rparr>"

definition exampleDetails :: "string \<Rightarrow> int \<Rightarrow> Details" where
  "exampleDetails rid tabId =
     \<lparr>d_requestId = rid, d_tabId = tabId, d_type = ''fetch'', d_url = ''/api/x'',
      d_method = None, d_responseHeaders = None, d_statusCode = None\<rparr>"

definition exampleMeta :: "int \<Rightarrow> Meta" where
  "exampleMeta tabId = \<lparr>m_tabId = tabId, m_method = ''GET'', m_endpoint = ''/api/x'', m_sizeBytes = None\<rparr>"

definition exampleWorld :: "int \<Rightarrow> World" where
  "exampleWorld tabId = \<lparr>requestCache = [''r1'' \<mapsto> exampleMeta tabId], session = Map.empty\<rparr>"


text \<open>
  Stand-ins for the platform's \<open>RegExp\<close> and \<open>URL\<close>, for the examples only: a pattern
  is a literal text that matches wherever it occurs in the target, letter case ignored,
  and the pattern \<open>(\<close> does not compile; a URL is cut at its first question mark, and the
  empty string does not parse.
\<close>

fun isPrefixOf :: "string \<Rightarrow> string \<Rightarrow> bool" where
  "isPrefixOf [] s = True"
| "isPrefixOf (c # r) [] = False"
| "isPrefixOf (c # r) (d # s) = (c = d \<and> isPrefixOf r s)"

fun occursIn :: "string \<Rightarrow> string \<Rightarrow> bool" where
  "occursIn r [] = (r = [])"
| "occursIn r (c # s) = (isPrefixOf r (c # s) \<or> occursIn r s)"

definition exampleRegExp_new :: "string \<Rightarrow> string option" where
  "exampleRegExp_new p = (if p = ''('' then None else Some (toLowerCase p))"

definition exampleRegExp_test :: "string \<Rightarrow> string \<Rightarrow> bool" where
  "exampleRegExp_test r s = occursIn r (toLowerCase s)"

definition exampleURL_new :: "string \<Rightarrow> URL option" where
  "exampleURL_new s =
     (if s = [] then None
      else Some \<lparr>origin = [], pathname = takeWhile (\<lambda>c. c \<noteq> CHR ''?'') s,
                 search = dropWhile (\<lambda>c. c \<noteq> CHR ''?'') s\<rparr>)"

definition exampleWorld2 :: World where
  "exampleWorld2 =
     \<lparr>requestCache = [''r1'' \<mapsto> exampleMeta 5, ''r2'' \<mapsto> exampleMeta 5], session = Map.empty\<rparr>"

text \<open>A world whose tab 5 already holds a record with status 200, one request pending.\<close>

definition exampleWorld3 :: World where
  "exampleWorld3 =
     \<lparr>requestCache = [''r2'' \<mapsto> exampleMeta 5],
      session = [5 \<mapsto> \<lparr>items = [''GET /api/x'' \<mapsto>
                   updateRecord 1 (Some (Code 200)) None
                     (newRecord ''GET /api/x'' ''GET'' ''/api/x'' 1)],
                 order = [''GET /api/x'']\<rparr>]\<rparr>"

definition exampleCall :: "int \<Rightarrow> int \<Rightarrow> string \<Rightarrow> Status option \<Rightarrow> Call" where
  "exampleCall cap t e st =
     \<lparr>c_env = exampleEnv cap t, c_method = ''GET'', c_endpoint = e, c_status = st, c_size = None\<rparr>"

section \<open>Eviction and the table invariant\<close>

lemma fold_delete:
  "fold (\<lambda>rk its. its(rk := None)) ks m = m |` (- set ks)"
proof (induction ks arbitrary: m)
  case Nil
  show ?case by simp
next
  case (Cons k ks)
  show ?case
    unfolding fold_simps Cons.IH
    by (rule ext) (simp add: restrict_map_def)
qed

lemma splice_nonneg:
  "0 \<le> cap \<Longrightarrow> splice cap xs = (take (nat cap) xs, drop (nat cap) xs)"
  by (auto simp: splice_def Let_def min_def)

lemma splice_prefix: "\<exists>n. splice cap xs = (take n xs, drop n xs)"
  by (auto simp: splice_def Let_def)

lemma evict_prefix:
  "\<exists>n. order (evict cap d) = take n (order d) \<and>
       items (evict cap d) = items d |` (- set (drop n (order d)))"
proof (cases "int (length (order d)) > cap")
  case True
  obtain n where n: "splice cap (order d) = (take n (order d), drop n (order d))"
    using splice_prefix by blast
  show ?thesis
    by (rule exI [of _ n]) (simp add: evict_def True n fold_delete)
next
  case False
  show ?thesis
    by (rule exI [of _ "length (order d)"]) (simp add: evict_def False restrict_map_def)
qed

lemma evict_nonneg:
  assumes "0 \<le> cap"
  shows "order (evict cap d) = take (nat cap) (order d)"
    and "items (evict cap d) = items d |` (- set (drop (nat cap) (order d)))"
  using assms by (auto simp: evict_def splice_nonneg fold_delete)

lemma tabInv_prefix:
  assumes "tabInv d"
  shows "tabInv (d\<lparr>items := items d |` (- set (drop n (order d))), order := take n (order d)\<rparr>)"
proof -
  have d: "distinct (order d)" and e: "dom (items d) = set (order d)"
    using assms by (simp_all add: tabInv_def)
  have "set (take n (order d)) \<inter> set (drop n (order d)) = {}"
    using d by (metis append_take_drop_id distinct_append)
  moreover have "set (take n (order d)) \<union> set (drop n (order d)) = set (order d)"
    by (metis append_take_drop_id set_append)
  ultimately have "set (order d) \<inter> - set (drop n (order d)) = set (take n (order d))"
    by blast
  then show ?thesis
    using d by (simp add: tabInv_def e)
qed

lemma tabInv_evict: "tabInv d \<Longrightarrow> tabInv (evict cap d)"
proof -
  assume a: "tabInv d"
  obtain n where n: "order (evict cap d) = take n (order d)"
      "items (evict cap d) = items d |` (- set (drop n (order d)))"
    using evict_prefix by blast
  have "tabInv (d\<lparr>items := items d |` (- set (drop n (order d))), order := take n (order d)\<rparr>)"
    using a by (rule tabInv_prefix)
  then show ?thesis
    by (simp add: tabInv_def n)
qed

lemma tabInv_empty: "tabInv \<lparr>items = Map.empty, order = []\<rparr>"
  by (simp add: tabInv_def)

lemma upsertTable_new:
  assumes "items d (makeKey m e) = None"
  shows "upsertTable cap t m e sc sz d =
           evict cap \<lparr>items = (items d)(makeKey m e \<mapsto>
                                   updateRecord t sc sz (newRecord (makeKey m e) m e t)),
                      order = makeKey m e # order d\<rparr>"
  using assms by (cases d) (simp add: upsertTable_def Let_def)

lemma upsertTable_old:
  assumes "items d (makeKey m e) = Some r"
  shows "upsertTable cap t m e sc sz d =
           evict cap \<lparr>items = (items d)(makeKey m e \<mapsto> updateRecord t sc sz r),
                      order = order d\<rparr>"
  using assms by (cases d) (simp add: upsertTable_def Let_def)

lemma tabInv_upsertTable:
  assumes "tabInv d"
  shows "tabInv (upsertTable cap t m e sc sz d)"
proof (cases "items d (makeKey m e)")
  case None
  then have "makeKey m e \<notin> set (order d)"
    using assms by (auto simp: tabInv_def)
  then have "tabInv \<lparr>items = (items d)(makeKey m e \<mapsto>
                 updateRecord t sc sz (newRecord (makeKey m e) m e t)),
               order = makeKey m e # order d\<rparr>"
    using assms by (simp add: tabInv_def)
  then show ?thesis
    unfolding upsertTable_new [OF None] by (rule tabInv_evict)
next
  case (Some r)
  then have "makeKey m e \<in> set (order d)"
    using assms by (auto simp: tabInv_def)
  then have "tabInv \<lparr>items = (items d)(makeKey m e \<mapsto> updateRecord t sc sz r),
                      order = order d\<rparr>"
    using assms by (auto simp: tabInv_def)
  then show ?thesis
    unfolding upsertTable_old [OF Some] by (rule tabInv_evict)
qed

lemma tabInv_getTabData: "sessInv sess \<Longrightarrow> tabInv (getTabData sess tabId)"
  by (auto simp: sessInv_def getTabData_def tabInv_empty split: option.splits)

lemma sessInv_upsertApiCall:
  assumes "sessInv sess" and "upsertApiCall env tabId m e sc sz sess = Inr sess'"
  shows "sessInv sess'"
proof (cases "tabId < 0")
  case True
  with assms show ?thesis by (simp add: upsertApiCall_def)
next
  case False
  have "tabInv (upsertTable (maxPerTab (settings env)) (now env) m e sc sz (getTabData sess tabId))"
    using assms(1) by (intro tabInv_upsertTable tabInv_getTabData)
  with assms False show ?thesis
    by (auto simp: upsertApiCall_def setTabData_def sessInv_def split: if_splits)
qed

lemma sessInv_applyOp:
  assumes "sessInv sess"
  shows "sessInv (applyOp op sess)"
proof (cases op)
  case (Upsert env tabId m e sc sz)
  show ?thesis
  proof (cases "upsertApiCall env tabId m e sc sz sess")
    case (Inl err)
    with Upsert assms show ?thesis by simp
  next
    case (Inr sess')
    with Upsert assms show ?thesis by (simp add: sessInv_upsertApiCall)
  qed
next
  case (Clear env active)
  with assms show ?thesis
    by (auto simp: clearTab_def setTabData_def sessInv_def tabInv_empty
             split: option.splits if_splits)
next
  case (Removed env tabId)
  with assms show ?thesis
    by (auto simp: onRemoved_def sessInv_def split: if_splits)
qed

lemma sessInv_fold: "sessInv sess \<Longrightarrow> sessInv (fold applyOp ops sess)"
  by (induction ops arbitrary: sess) (simp_all add: sessInv_applyOp)

lemma tabInv_card: "tabInv d \<Longrightarrow> length (order d) = card (dom (items d))"
  by (simp add: tabInv_def distinct_card)

text \<open>
  Claim C9. Starting from an empty session storage area, after any sequence of upserts,
  clears and tab removals (rejected or not), every stored table has the keys of \<open>items\<close>
  equal to the elements of \<open>order\<close>, \<open>order\<close> has no duplicates, and the length of
  \<open>order\<close> is the number of stored records.
\<close>

theorem tab_table_invariant:
  "runOps ops Map.empty tab = Some d \<Longrightarrow>
     dom (items d) = set (order d) \<and> distinct (order d) \<and>
     length (order d) = card (dom (items d))"
proof -
  assume a: "runOps ops Map.empty tab = Some d"
  have "sessInv Map.empty" by (simp add: sessInv_def)
  then have "sessInv (runOps ops Map.empty)"
    unfolding runOps_def by (rule sessInv_fold)
  with a have "tabInv d" by (simp add: sessInv_def)
  then show ?thesis
    using tabInv_card by (simp add: tabInv_def)
qed

lemmas run_defs = runOps_def upsertApiCall_def setTabData_def getTabData_def upsertTable_def
  evict_def splice_def makeKey_def newRecord_def updateRecord_def Let_def exampleEnv_def

theorem tab_table_invariant_witness:
  "runOps [Upsert (exampleEnv 1 10) 5 ''G'' ''a'' None None,
           Upsert (exampleEnv 1 11) 5 ''P'' ''b'' None (Some 7)] Map.empty 5
     = Some \<lparr>items = [''P b'' \<mapsto> \<lparr>key = ''P b'', http_method = ''P'', endpoint = ''b'', count = 1,
                 firstSeen = 11, lastSeen = 11, lastStatus = None, statusCounts = Map.empty,
                 sizeKnownCount = 1, sizeSum = 7, lastSize = Some 7\<rparr>],
              order = [''P b'']\<rparr>
   \<and> dom [''P b'' \<mapsto> \<lparr>key = ''P b'', http_method = ''P'', endpoint = ''b'', count = 1::nat,
                 firstSeen = 11::int, lastSeen = 11::int, lastStatus = None::Status option, statusCounts = Map.empty :: string \<rightharpoonup> nat,
                 sizeKnownCount = 1::nat, sizeSum = 7::int, lastSize = Some (7::int)\<rparr>] = set [''P b'']
   \<and> distinct [''P b'']"
proof -
  have h: "runOps [Upsert (exampleEnv 1 10) 5 ''G'' ''a'' None None,
           Upsert (exampleEnv 1 11) 5 ''P'' ''b'' None (Some 7)] Map.empty 5
     = Some \<lparr>items = [''P b'' \<mapsto> \<lparr>key = ''P b'', http_method = ''P'', endpoint = ''b'', count = 1,
                 firstSeen = 11, lastSeen = 11, lastStatus = None, statusCounts = Map.empty,
                 sizeKnownCount = 1, sizeSum = 7, lastSize = Some 7\<rparr>],
              order = [''P b'']\<rparr>"
    by (simp add: run_defs fun_eq_iff)
  show ?thesis
    using h tab_table_invariant [OF h] by simp
qed

section \<open>Negative tab ids and the pending entry\<close>

text \<open>
  Claim C10. An upsert with a negative tab id returns at once: it succeeds whatever
  storage call would have been rejected, and hands back the storage area as it was. So a
  terminal event (completed or errored) for a pending entry with a negative tab id leaves
  every table unchanged; it only deletes the pending entry.
\<close>

theorem negative_tab_upsert_noop:
  "tabId < 0 \<Longrightarrow>
     upsertApiCall env tabId m e sc sz sess = Inr sess \<and>
     (requestCache w (d_requestId det) = Some meta \<and> m_tabId meta = tabId \<longrightarrow>
        fst (onCompleted env det w) = None \<and>
        session (snd (onCompleted env det w)) = session w \<and>
        requestCache (snd (onCompleted env det w)) = (requestCache w)(d_requestId det := None) \<and>
        fst (onErrorOccurred env det w) = None \<and>
        session (snd (onErrorOccurred env det w)) = session w \<and>
        requestCache (snd (onErrorOccurred env det w)) = (requestCache w)(d_requestId det := None))"
  by (simp add: upsertApiCall_def onCompleted_def onErrorOccurred_def)

theorem negative_tab_upsert_noop_witness:
  "(-1::int) < 0 \<and>
   upsertApiCall failingEnv (-1) ''GET'' ''/api/x'' (Some ERR) None Map.empty = Inr Map.empty \<and>
   session (snd (onCompleted failingEnv (exampleDetails ''r1'' (-1)) (exampleWorld (-1)))) = Map.empty \<and>
   requestCache (snd (onCompleted failingEnv (exampleDetails ''r1'' (-1)) (exampleWorld (-1)))) ''r1'' = None"
proof -
  have h: "(-1::int) < 0" by simp
  have p: "requestCache (exampleWorld (-1)) (d_requestId (exampleDetails ''r1'' (-1))) = Some (exampleMeta (-1))
           \<and> m_tabId (exampleMeta (-1)) = -1"
    by (simp add: exampleWorld_def exampleDetails_def exampleMeta_def)
  show ?thesis
    using p negative_tab_upsert_noop [OF h, of failingEnv "''GET''" "''/api/x''" "Some ERR" None Map.empty
        "exampleWorld (-1)" "exampleDetails ''r1'' (-1)" "exampleMeta (-1)"]
    by (simp add: exampleWorld_def exampleDetails_def)
qed

lemma toLowerCase_lit [simp]:
  "toLowerCase ''content-length'' = ''content-length''"
  "toLowerCase ''/api'' = ''/api''"
  "toLowerCase ''/api/x'' = ''/api/x''"
  "toLowerCase ''.js'' = ''.js''"
  by (simp_all add: toLowerCase_def toLowerCase_char_def)

text \<open>
  Claim C7 as stated fails: the start listener does not look at the tab id, so a start
  event with tab id \<open>-1\<close> that passes the type and classifier checks creates an entry.
\<close>

theorem negative_tab_start_counterexample:
  "requestCache (snd (onBeforeRequest exampleRegExp_new exampleRegExp_test exampleURL_new
       (exampleEnv 10 0) (exampleDetails ''r1'' (-1))
       \<lparr>requestCache = Map.empty, session = Map.empty\<rparr>)) ''r1''
   = Some \<lparr>m_tabId = -1, m_method = ''GET'', m_endpoint = ''/api/x'', m_sizeBytes = None\<rparr>"
  by (simp add: onBeforeRequest_def exampleEnv_def exampleDetails_def normalizeUrl_def
        exampleURL_new_def isApiUrl_def exampleRegExp_new_def exampleRegExp_test_def)

text \<open>
  Claim C7, amended. A start event with a negative tab id is tracked like any other: when
  its resource type is captured and its normalised endpoint passes the classifier, a
  pending entry carrying the negative tab id is created. The negative tab id is rejected
  at the terminal event: the upsert returns without touching any table, and the entry is
  deleted.
\<close>

theorem negative_tab_start_tracked:
  assumes "d_tabId det < 0"
    and "\<not> local_get_fails env"
    and "d_type det \<in> set (captureTypes (settings env))"
    and "isApiUrl RegExp_new RegExp_test
           (normalizeUrl URL_new (d_url det) (includeQueryString (settings env))) (settings env)"
    and "d_requestId det' = d_requestId det"
  shows "(let w' = snd (onBeforeRequest RegExp_new RegExp_test URL_new env det w) in
            (\<exists>meta. requestCache w' (d_requestId det) = Some meta \<and> m_tabId meta = d_tabId det) \<and>
            session w' = session w \<and>
            fst (onCompleted env' det' w') = None \<and>
            session (snd (onCompleted env' det' w')) = session w \<and>
            requestCache (snd (onCompleted env' det' w')) (d_requestId det) = None)"
  using assms
  by (simp add: onBeforeRequest_def onCompleted_def upsertApiCall_def Let_def)

theorem negative_tab_start_tracked_witness:
  "m_tabId (the (requestCache (snd (onBeforeRequest exampleRegExp_new exampleRegExp_test
       exampleURL_new (exampleEnv 10 0) (exampleDetails ''r1'' (-1))
       \<lparr>requestCache = Map.empty, session = Map.empty\<rparr>)) ''r1'')) = -1 \<and>
   requestCache (snd (onCompleted failingEnv (exampleDetails ''r1'' (-1))
     (snd (onBeforeRequest exampleRegExp_new exampleRegExp_test
       exampleURL_new (exampleEnv 10 0) (exampleDetails ''r1'' (-1))
       \<lparr>requestCache = Map.empty, session = Map.empty\<rparr>)))) ''r1'' = None"
proof -
  have h1: "d_tabId (exampleDetails ''r1'' (-1)) < 0"
    by (simp add: exampleDetails_def)
  have h2: "\<not> local_get_fails (exampleEnv 10 0)"
    by (simp add: exampleEnv_def)
  have h3: "d_type (exampleDetails ''r1'' (-1)) \<in> set (captureTypes (settings (exampleEnv 10 0)))"
    by (simp add: exampleDetails_def exampleEnv_def)
  have h4: "isApiUrl exampleRegExp_new exampleRegExp_test
           (normalizeUrl exampleURL_new (d_url (exampleDetails ''r1'' (-1)))
              (includeQueryString (settings (exampleEnv 10 0)))) (settings (exampleEnv 10 0))"
    by (simp add: exampleEnv_def exampleDetails_def normalizeUrl_def
        exampleURL_new_def isApiUrl_def exampleRegExp_new_def exampleRegExp_test_def)
  show ?thesis
    using negative_tab_start_tracked [OF h1 h2 h3 h4 refl, where env' = failingEnv
        and w = "\<lparr>requestCache = Map.empty, session = Map.empty\<rparr>"]
    by (auto simp: Let_def exampleDetails_def)
qed

text \<open>
  Claim C3 as stated fails: the deletion follows the awaited upsert with no handler in
  between, so when the write to storage is rejected the entry is still pending.
\<close>

theorem failed_upsert_keeps_pending_counterexample:
  "onCompleted ((exampleEnv 10 0)\<lparr>session_set_fails := True\<rparr>) (exampleDetails ''r1'' 5)
     (exampleWorld 5) = (Some StorageError, exampleWorld 5) \<and>
   requestCache (exampleWorld 5) ''r1'' = Some (exampleMeta 5)"
  by (simp add: onCompleted_def exampleWorld_def exampleDetails_def exampleMeta_def
        upsertApiCall_def setTabData_def exampleEnv_def)

text \<open>
  Claim C3, amended. For a terminal event (completed or errored) whose requestId has a
  pending entry: when the upsert returns, the pending entry, and no other, is deleted, and
  a second terminal event for that requestId does nothing; when the upsert raises, the
  listener ends with that error and leaves the state, pending entry included, as it was.
\<close>

theorem terminal_event_consumes_pending:
  assumes "requestCache w (d_requestId det) = Some meta"
  shows "(let up = upsertApiCall env (m_tabId meta) (m_method meta) (m_endpoint meta)
                     (map_option Code (d_statusCode det)) (m_sizeBytes meta) (session w);
              res = onCompleted env det w
          in (\<forall>sess'. up = Inr sess' \<longrightarrow>
                fst res = None \<and> session (snd res) = sess' \<and>
                requestCache (snd res) = (requestCache w)(d_requestId det := None) \<and>
                onCompleted env' det (snd res) = (None, snd res)) \<and>
             (\<forall>err. up = Inl err \<longrightarrow> res = (Some err, w))) \<and>
         (let up = upsertApiCall env (m_tabId meta) (m_method meta) (m_endpoint meta)
                     (Some ERR) (m_sizeBytes meta) (session w);
              res = onErrorOccurred env det w
          in (\<forall>sess'. up = Inr sess' \<longrightarrow>
                fst res = None \<and> session (snd res) = sess' \<and>
                requestCache (snd res) = (requestCache w)(d_requestId det := None) \<and>
                onErrorOccurred env' det (snd res) = (None, snd res)) \<and>
             (\<forall>err. up = Inl err \<longrightarrow> res = (Some err, w)))"
  using assms by (simp add: onCompleted_def onErrorOccurred_def Let_def)

theorem terminal_event_consumes_pending_witness:
  "requestCache (snd (onCompleted (exampleEnv 10 0) (exampleDetails ''r1'' 5) (exampleWorld 5)))
     = Map.empty \<and>
   fst (onCompleted (exampleEnv 10 0) (exampleDetails ''r1'' 5) (exampleWorld 5)) = None \<and>
   onErrorOccurred failingEnv (exampleDetails ''r1'' 5) (exampleWorld 5)
     = (Some StorageError, exampleWorld 5)"
proof -
  have h: "requestCache (exampleWorld 5) (d_requestId (exampleDetails ''r1'' 5)) = Some (exampleMeta 5)"
    by (simp add: exampleWorld_def exampleDetails_def)
  have ok: "\<exists>sess'. upsertApiCall (exampleEnv 10 0) (m_tabId (exampleMeta 5)) (m_method (exampleMeta 5))
       (m_endpoint (exampleMeta 5)) (map_option Code (d_statusCode (exampleDetails ''r1'' 5)))
       (m_sizeBytes (exampleMeta 5)) (session (exampleWorld 5)) = Inr sess'"
    by (simp add: upsertApiCall_def setTabData_def exampleEnv_def exampleMeta_def)
  have bad: "upsertApiCall failingEnv (m_tabId (exampleMeta 5)) (m_method (exampleMeta 5))
       (m_endpoint (exampleMeta 5)) (Some ERR)
       (m_sizeBytes (exampleMeta 5)) (session (exampleWorld 5)) = Inl StorageError"
    by (simp add: upsertApiCall_def failingEnv_def exampleEnv_def exampleMeta_def)
  from ok obtain s1 where s1: "upsertApiCall (exampleEnv 10 0) (m_tabId (exampleMeta 5)) (m_method (exampleMeta 5))
       (m_endpoint (exampleMeta 5)) (map_option Code (d_statusCode (exampleDetails ''r1'' 5)))
       (m_sizeBytes (exampleMeta 5)) (session (exampleWorld 5)) = Inr s1" ..
  have a: "requestCache (snd (onCompleted (exampleEnv 10 0) (exampleDetails ''r1'' 5) (exampleWorld 5)))
     = Map.empty \<and>
   fst (onCompleted (exampleEnv 10 0) (exampleDetails ''r1'' 5) (exampleWorld 5)) = None"
    using terminal_event_consumes_pending [OF h, where env = "exampleEnv 10 0" and env' = failingEnv] s1
    by (simp add: Let_def exampleWorld_def exampleDetails_def)
  have b: "onErrorOccurred failingEnv (exampleDetails ''r1'' 5) (exampleWorld 5)
     = (Some StorageError, exampleWorld 5)"
    using terminal_event_consumes_pending [OF h, where env = failingEnv and env' = failingEnv] bad
    by (simp add: Let_def)
  show ?thesis using a b by simp
qed

section \<open>Classifier and normaliser\<close>

lemma safeRegexList_map_filter:
  "safeRegexList RegExp_new (Some ps) = List.map_filter RegExp_new ps"
  by (induction ps) (simp_all add: List.map_filter_simps split: option.splits)

lemma safeRegexList_append:
  "safeRegexList RegExp_new (Some (ps @ qs)) =
     safeRegexList RegExp_new (Some ps) @ safeRegexList RegExp_new (Some qs)"
  by (induction ps) (simp_all split: option.splits)

text \<open>
  Claim C4. The classifier answers true exactly when the compiled include list is empty
  or some compiled include pattern matches the endpoint, and no compiled exclude pattern
  matches it. The compiled list holds, in order, the patterns that compile; a pattern that
  does not compile is left out and the patterns around it are compiled as without it.
  (Letter case is ignored by the flag given to the platform's \<open>RegExp\<close>.)
\<close>

theorem classifier_decision:
  "isApiUrl RegExp_new RegExp_test url st =
     ((safeRegexList RegExp_new (apiIncludePatterns st) = [] \<or>
       (\<exists>r \<in> set (safeRegexList RegExp_new (apiIncludePatterns st)). RegExp_test r url)) \<and>
      \<not> (\<exists>r \<in> set (safeRegexList RegExp_new (apiExcludePatterns st)). RegExp_test r url)) \<and>
   set (safeRegexList RegExp_new (Some ps)) = {r. \<exists>p \<in> set ps. RegExp_new p = Some r} \<and>
   (RegExp_new p = None \<longrightarrow>
      safeRegexList RegExp_new (Some (ps @ p # qs)) = safeRegexList RegExp_new (Some (ps @ qs)))"
proof -
  have a: "isApiUrl RegExp_new RegExp_test url st =
     ((safeRegexList RegExp_new (apiIncludePatterns st) = [] \<or>
       (\<exists>r \<in> set (safeRegexList RegExp_new (apiIncludePatterns st)). RegExp_test r url)) \<and>
      \<not> (\<exists>r \<in> set (safeRegexList RegExp_new (apiExcludePatterns st)). RegExp_test r url))"
    by (auto simp: isApiUrl_def Let_def list_ex_iff)
  have b: "set (safeRegexList RegExp_new (Some ps)) = {r. \<exists>p \<in> set ps. RegExp_new p = Some r}"
    by (induction ps) (auto split: option.splits)
  have c: "RegExp_new p = None \<longrightarrow>
      safeRegexList RegExp_new (Some (ps @ p # qs)) = safeRegexList RegExp_new (Some (ps @ qs))"
    by (simp add: safeRegexList_append)
  show ?thesis using a b c by blast
qed

theorem classifier_decision_witness:
  "isApiUrl exampleRegExp_new exampleRegExp_test ''/api/x'' (settings (exampleEnv 10 0)) \<and>
   \<not> isApiUrl exampleRegExp_new exampleRegExp_test ''/api/x.js'' (settings (exampleEnv 10 0)) \<and>
   safeRegexList exampleRegExp_new (Some [''/api'', ''('', ''.js'']) = [''/api'', ''.js'']"
proof -
  have i: "safeRegexList exampleRegExp_new (apiIncludePatterns (settings (exampleEnv 10 0))) = [''/api'']"
    by (simp add: exampleEnv_def exampleRegExp_new_def)
  have e: "safeRegexList exampleRegExp_new (apiExcludePatterns (settings (exampleEnv 10 0))) = [''.js'']"
    by (simp add: exampleEnv_def exampleRegExp_new_def)
  have l: "toLowerCase ''/api/x.js'' = ''/api/x.js''"
    by (simp add: toLowerCase_def toLowerCase_char_def)
  have n: "exampleRegExp_new ''('' = None"
    by (simp add: exampleRegExp_new_def)
  have t1: "isApiUrl exampleRegExp_new exampleRegExp_test ''/api/x'' (settings (exampleEnv 10 0))"
    using classifier_decision [of exampleRegExp_new exampleRegExp_test "''/api/x''"
        "settings (exampleEnv 10 0)" "[]" "''(''" "[]"]
    by (simp add: i e exampleRegExp_test_def)
  have t2: "\<not> isApiUrl exampleRegExp_new exampleRegExp_test ''/api/x.js'' (settings (exampleEnv 10 0))"
    using classifier_decision [of exampleRegExp_new exampleRegExp_test "''/api/x.js''"
        "settings (exampleEnv 10 0)" "[]" "''(''" "[]"]
    by (simp add: i e l exampleRegExp_test_def)
  have t3: "safeRegexList exampleRegExp_new (Some [''/api'', ''('', ''.js'']) = [''/api'', ''.js'']"
    using classifier_decision [of exampleRegExp_new exampleRegExp_test "''/api/x''"
        "settings (exampleEnv 10 0)" "[''/api'']" "''(''" "[''.js'']"] n
    by (simp add: exampleRegExp_new_def)
  show ?thesis using t1 t2 t3 by simp
qed

text \<open>
  Claim C8. Two URL strings that parse and whose parsed forms agree in origin and path
  (they differ in the query only) normalise to the same endpoint, origin followed by
  path, when the query string is not included; when it is included, they normalise to
  different endpoints as soon as their \<open>search\<close> components differ. A string that does not
  parse is returned as it is; the function has a value on every input.
\<close>

theorem normalize_query_string:
  "(URL_new a = Some ua \<and> URL_new b = Some ub \<and> origin ua = origin ub \<and>
    pathname ua = pathname ub \<longrightarrow>
      normalizeUrl URL_new a False = origin ua @ pathname ua \<and>
      normalizeUrl URL_new a False = normalizeUrl URL_new b False \<and>
      (search ua \<noteq> search ub \<longrightarrow> normalizeUrl URL_new a True \<noteq> normalizeUrl URL_new b True)) \<and>
   (URL_new s = None \<longrightarrow> normalizeUrl URL_new s flag = s)"
  by (simp add: normalizeUrl_def)

theorem normalize_query_string_witness:
  "normalizeUrl exampleURL_new ''/a?x'' False = ''/a'' \<and>
   normalizeUrl exampleURL_new ''/a?x'' False = normalizeUrl exampleURL_new ''/a?y'' False \<and>
   normalizeUrl exampleURL_new ''/a?x'' True \<noteq> normalizeUrl exampleURL_new ''/a?y'' True \<and>
   normalizeUrl exampleURL_new [] True = []"
proof -
  have p: "exampleURL_new ''/a?x'' = Some \<lparr>origin = [], pathname = ''/a'', search = ''?x''\<rparr>"
      "exampleURL_new ''/a?y'' = Some \<lparr>origin = [], pathname = ''/a'', search = ''?y''\<rparr>"
      "exampleURL_new [] = None"
    by (simp_all add: exampleURL_new_def)
  show ?thesis
    using normalize_query_string [of exampleURL_new "''/a?x''"
        "\<lparr>origin = [], pathname = ''/a'', search = ''?x''\<rparr>" "''/a?y''"
        "\<lparr>origin = [], pathname = ''/a'', search = ''?y''\<rparr>" "[]" True] p
    by auto
qed

section \<open>Null status and the length header\<close>

lemma evict_items_Some:
  "items (evict cap d) k = Some r \<Longrightarrow> items d k = Some r"
proof -
  assume a: "items (evict cap d) k = Some r"
  obtain n where "items (evict cap d) = items d |` (- set (drop n (order d)))"
    using evict_prefix by blast
  with a show ?thesis
    by (simp add: restrict_map_def split: if_splits)
qed

lemma upsertTable_record:
  assumes "items (upsertTable cap t m e sc sz d) (makeKey m e) = Some r'"
  shows "r' = updateRecord t sc sz
                (case items d (makeKey m e) of
                   None \<Rightarrow> newRecord (makeKey m e) m e t
                 | Some r \<Rightarrow> r)"
proof (cases "items d (makeKey m e)")
  case None
  from assms show ?thesis
    unfolding upsertTable_new [OF None]
    by (auto dest!: evict_items_Some simp: None)
next
  case (Some r)
  from assms show ?thesis
    unfolding upsertTable_old [OF Some]
    by (auto dest!: evict_items_Some simp: Some)
qed

lemma upsertApiCall_record:
  assumes "upsertApiCall env tabId m e sc sz sess = Inr sess'"
    and "items (getTabData sess' tabId) (makeKey m e) = Some r'"
  shows "(tabId < 0 \<and> sess' = sess) \<or>
         r' = updateRecord (now env) sc sz
                (case items (getTabData sess tabId) (makeKey m e) of
                   None \<Rightarrow> newRecord (makeKey m e) m e (now env)
                 | Some r \<Rightarrow> r)"
proof (cases "tabId < 0")
  case True
  with assms show ?thesis by (simp add: upsertApiCall_def)
next
  case False
  with assms(1) have "sess' = sess(tabId \<mapsto>
      upsertTable (maxPerTab (settings env)) (now env) m e sc sz (getTabData sess tabId))"
    by (auto simp: upsertApiCall_def setTabData_def split: if_splits)
  with assms(2) have "items (upsertTable (maxPerTab (settings env)) (now env) m e sc sz
      (getTabData sess tabId)) (makeKey m e) = Some r'"
    by (simp add: getTabData_def)
  then show ?thesis
    by (auto dest: upsertTable_record)
qed

lemma updateRecord_null_status:
  "lastStatus (updateRecord t None sz r) = lastStatus r"
  "statusCounts (updateRecord t None sz r) = statusCounts r"
  by (simp_all add: updateRecord_def Let_def split: option.splits)

text \<open>
  Claim C5 as stated fails: the assignment to \<open>lastStatus\<close> is inside the test
  \<open>statusCode != null\<close>, so a completed event without a status code leaves the
  \<open>lastStatus\<close> that an earlier event has set. Here the first event carries 200.
\<close>

theorem null_status_keeps_lastStatus_counterexample:
  "map_option lastStatus
     (items (getTabData (session (snd
        (onCompleted (exampleEnv 10 2) (exampleDetails ''r2'' 5)
           (snd (onCompleted (exampleEnv 10 1)
                   ((exampleDetails ''r1'' 5)\<lparr>d_statusCode := Some 200\<rparr>) exampleWorld2))))) 5)
        ''GET /api/x'')
   = Some (Some (Code 200))"
  by (simp add: onCompleted_def exampleWorld2_def exampleDetails_def exampleMeta_def run_defs)

text \<open>
  Claim C5, amended. A completed event without a status code leaves \<open>lastStatus\<close> and
  \<open>statusCounts\<close> of the target record as they were: for a record created by this event
  \<open>lastStatus\<close> is null and \<open>statusCounts\<close> is empty, for an existing record both keep
  their earlier values.
\<close>

theorem null_status_leaves_status_fields:
  assumes "requestCache w (d_requestId det) = Some meta"
    and "d_statusCode det = None"
    and "items (getTabData (session (snd (onCompleted env det w))) (m_tabId meta))
           (makeKey (m_method meta) (m_endpoint meta)) = Some r'"
  shows "lastStatus r' =
           (case items (getTabData (session w) (m_tabId meta))
                   (makeKey (m_method meta) (m_endpoint meta)) of
              None \<Rightarrow> None | Some r \<Rightarrow> lastStatus r) \<and>
         statusCounts r' =
           (case items (getTabData (session w) (m_tabId meta))
                   (makeKey (m_method meta) (m_endpoint meta)) of
              None \<Rightarrow> Map.empty | Some r \<Rightarrow> statusCounts r)"
proof (cases "upsertApiCall env (m_tabId meta) (m_method meta) (m_endpoint meta) None
                (m_sizeBytes meta) (session w)")
  case (Inl err)
  with assms have "items (getTabData (session w) (m_tabId meta))
      (makeKey (m_method meta) (m_endpoint meta)) = Some r'"
    by (simp add: onCompleted_def)
  then show ?thesis by simp
next
  case (Inr sess')
  with assms have r': "items (getTabData sess' (m_tabId meta))
      (makeKey (m_method meta) (m_endpoint meta)) = Some r'"
    by (simp add: onCompleted_def)
  from upsertApiCall_record [OF Inr r'] show ?thesis
  proof
    assume "m_tabId meta < 0 \<and> sess' = session w"
    with r' show ?thesis by simp
  next
    assume "r' = updateRecord (now env) None (m_sizeBytes meta)
      (case items (getTabData (session w) (m_tabId meta))
              (makeKey (m_method meta) (m_endpoint meta)) of
         None \<Rightarrow> newRecord (makeKey (m_method meta) (m_endpoint meta)) (m_method meta)
                   (m_endpoint meta) (now env)
       | Some r \<Rightarrow> r)"
    then show ?thesis
      by (simp add: updateRecord_null_status newRecord_def split: option.splits)
  qed
qed

theorem null_status_leaves_status_fields_witness:
  "map_option lastStatus
     (items (getTabData (session (snd
        (onCompleted (exampleEnv 10 2) (exampleDetails ''r2'' 5) exampleWorld3))) 5)
        ''GET /api/x'')
   = Some (Some (Code 200)) \<and>
   map_option count
     (items (getTabData (session (snd
        (onCompleted (exampleEnv 10 2) (exampleDetails ''r2'' 5) exampleWorld3))) 5)
        ''GET /api/x'')
   = Some 2"
proof -
  have h1: "requestCache exampleWorld3 (d_requestId (exampleDetails ''r2'' 5)) = Some (exampleMeta 5)"
    by (simp add: exampleWorld3_def exampleDetails_def)
  have h2: "d_statusCode (exampleDetails ''r2'' 5) = None"
    by (simp add: exampleDetails_def)
  have "\<exists>r'. items (getTabData (session (snd (onCompleted (exampleEnv 10 2)
                  (exampleDetails ''r2'' 5) exampleWorld3))) (m_tabId (exampleMeta 5)))
           (makeKey (m_method (exampleMeta 5)) (m_endpoint (exampleMeta 5))) = Some r' \<and>
           count r' = 2"
    by (simp add: onCompleted_def exampleWorld3_def exampleDetails_def exampleMeta_def run_defs)
  then obtain r' where h3: "items (getTabData (session (snd (onCompleted (exampleEnv 10 2)
                  (exampleDetails ''r2'' 5) exampleWorld3))) (m_tabId (exampleMeta 5)))
           (makeKey (m_method (exampleMeta 5)) (m_endpoint (exampleMeta 5))) = Some r'"
    and c: "count r' = 2"
    by blast
  have k: "m_tabId (exampleMeta 5) = 5"
      "makeKey (m_method (exampleMeta 5)) (m_endpoint (exampleMeta 5)) = ''GET /api/x''"
    by (simp_all add: exampleMeta_def makeKey_def)
  have o: "items (getTabData (session exampleWorld3) 5) ''GET /api/x'' =
             Some (updateRecord 1 (Some (Code 200)) None
                     (newRecord ''GET /api/x'' ''GET'' ''/api/x'' 1))"
    by (simp add: exampleWorld3_def getTabData_def)
  have l: "lastStatus (updateRecord 1 (Some (Code 200)) None
                     (newRecord ''GET /api/x'' ''GET'' ''/api/x'' 1)) = Some (Code 200)"
    by (simp add: updateRecord_def Let_def)
  show ?thesis
    using null_status_leaves_status_fields [OF h1 h2 h3] h3 c
    by (simp add: k o l)
qed





















section \<open>Interleaved upserts and counting\<close>

lemma statusTotal_upd:
  assumes "finite (dom sc)"
  shows "statusTotal (sc(s \<mapsto> v)) = v + (\<Sum>k \<in> dom sc - {s}. the (sc k))"
proof -
  have c: "(\<Sum>k \<in> dom sc - {s}. the ((sc(s \<mapsto> v)) k)) = (\<Sum>k \<in> dom sc - {s}. the (sc k))"
    by (rule sum.cong) simp_all
  have "statusTotal (sc(s \<mapsto> v)) = (\<Sum>k \<in> insert s (dom sc). the ((sc(s \<mapsto> v)) k))"
    by (simp add: statusTotal_def)
  also have "\<dots> = the ((sc(s \<mapsto> v)) s) + (\<Sum>k \<in> dom sc - {s}. the ((sc(s \<mapsto> v)) k))"
    using assms by (rule sum.insert_remove)
  also have "\<dots> = v + (\<Sum>k \<in> dom sc - {s}. the (sc k))"
    unfolding c by simp
  finally show ?thesis .
qed

lemma statusTotal_bump:
  assumes "finite (dom sc)"
  shows "statusTotal (sc(s \<mapsto> (case sc s of None \<Rightarrow> 0 | Some c \<Rightarrow> c) + 1)) = statusTotal sc + 1"
proof (cases "sc s")
  case None
  then have "dom sc - {s} = dom sc" by auto
  then show ?thesis
    using statusTotal_upd [OF assms, of s 1] by (simp add: None statusTotal_def)
next
  case (Some c)
  then have "s \<in> dom sc" by auto
  with assms have "statusTotal sc = the (sc s) + (\<Sum>k \<in> dom sc - {s}. the (sc k))"
    unfolding statusTotal_def by (rule sum.remove)
  then show ?thesis
    using statusTotal_upd [OF assms, of s "c + 1"] by (simp add: Some)
qed

lemma updateRecord_count: "count (updateRecord t sc sz r) = count r + 1"
  by (simp add: updateRecord_def Let_def split: option.splits)

lemma updateRecord_lastSeen: "lastSeen (updateRecord t sc sz r) = t"
  by (simp add: updateRecord_def Let_def split: option.splits)

lemma updateRecord_finite:
  "finite (dom (statusCounts r)) \<Longrightarrow> finite (dom (statusCounts (updateRecord t sc sz r)))"
  by (simp add: updateRecord_def Let_def split: option.splits)

lemma updateRecord_statusTotal:
  assumes "finite (dom (statusCounts r))"
  shows "statusTotal (statusCounts (updateRecord t sc sz r)) =
           statusTotal (statusCounts r) + (if sc = None then 0 else 1)"
proof (cases sc)
  case None
  then show ?thesis by (simp add: updateRecord_null_status)
next
  case (Some st)
  have "statusCounts (updateRecord t (Some st) sz r) =
          (statusCounts r)(String_of st \<mapsto>
             (case statusCounts r (String_of st) of None \<Rightarrow> 0 | Some c \<Rightarrow> c) + 1)"
    by (simp add: updateRecord_def Let_def split: option.splits)
  then show ?thesis
    using statusTotal_bump [OF assms] by (simp add: Some)
qed

lemma upsertApiCall_ok:
  assumes "0 \<le> tabId" and "noFaults env"
  shows "upsertApiCall env tabId m e sc sz sess =
           Inr (sess(tabId \<mapsto> upsertTable (maxPerTab (settings env)) (now env) m e sc sz
                                 (getTabData sess tabId)))"
  using assms by (simp add: upsertApiCall_def setTabData_def noFaults_def)

lemma getTabData_upd [simp]: "getTabData (sess(tabId \<mapsto> d)) tabId = d"
  by (simp add: getTabData_def)

lemma length_filter_less_iff:
  "length (filter P xs) < length xs \<longleftrightarrow> (\<exists>x \<in> set xs. \<not> P x)"
  by (induction xs) (auto simp: less_Suc_eq_le)

lemma statusTotal_empty: "statusTotal Map.empty = 0"
  by (simp add: statusTotal_def)

text \<open>
  A read followed at once by its write is the upsert as a whole, and the serial schedule
  is the calls applied one after the other.
\<close>

lemma upsertApiCall_read_write:
  "upsertApiCall env tabId m e sc sz sess =
     (case upsertRead env tabId sess of
        Inl err \<Rightarrow> Inl err
      | Inr None \<Rightarrow> Inr sess
      | Inr (Some d) \<Rightarrow> upsertWrite env tabId m e sc sz d sess)"
  by (simp add: upsertApiCall_def upsertRead_def upsertWrite_def)

lemma stepUpsert_read_write:
  assumes "fl 0 = None"
  shows "stepUpsert tabId (Write 0) (stepUpsert tabId (Read 0 c) (sess, fl)) =
           (applyOp (Upsert (c_env c) tabId (c_method c) (c_endpoint c) (c_status c) (c_size c))
              sess, fl)"
proof -
  have u: "(fl(0 \<mapsto> x))(0 := None) = fl" for x
    using assms by (auto simp: fun_eq_iff)
  show ?thesis
    using assms
    by (auto simp: upsertApiCall_read_write u split: sum.splits option.splits)
qed

lemma runSteps_serial:
  assumes "fl 0 = None"
  shows "runSteps tabId (serial cs) (sess, fl) =
           (fold (\<lambda>c. applyOp (Upsert (c_env c) tabId (c_method c) (c_endpoint c)
                                  (c_status c) (c_size c))) cs sess, fl)"
proof (induction cs arbitrary: sess)
  case Nil
  show ?case by (simp add: runSteps_def serial_def)
next
  case (Cons c cs)
  have "runSteps tabId (serial (c # cs)) (sess, fl) =
          runSteps tabId (serial cs)
            (stepUpsert tabId (Write 0) (stepUpsert tabId (Read 0 c) (sess, fl)))"
    by (simp add: runSteps_def serial_def)
  then show ?case
    by (simp only: stepUpsert_read_write [of fl, OF assms] Cons.IH fold_simps o_apply)
qed

lemma serialRun_Nil: "serialRun tabId [] sess = sess"
  by (simp add: serialRun_def runSteps_serial)

lemma serialRun_snoc:
  "serialRun tabId (cs @ [c]) sess =
     applyOp (Upsert (c_env c) tabId (c_method c) (c_endpoint c) (c_status c) (c_size c))
       (serialRun tabId cs sess)"
  by (simp add: serialRun_def runSteps_serial)

lemma serialRun_snoc_ok:
  assumes "0 \<le> tabId" and "noFaults (c_env c)"
  shows "getTabData (serialRun tabId (cs @ [c]) sess) tabId =
           upsertTable (maxPerTab (settings (c_env c))) (now (c_env c)) (c_method c)
             (c_endpoint c) (c_status c) (c_size c) (getTabData (serialRun tabId cs sess) tabId)"
  by (simp add: serialRun_snoc upsertApiCall_ok [OF assms])

text \<open>An upsert changes no record under another key; it can only delete it.\<close>

lemma upsertTable_other_key:
  assumes "k \<noteq> makeKey m e" and "items (upsertTable cap t m e sc sz d) k = Some r"
  shows "items d k = Some r"
proof (cases "items d (makeKey m e)")
  case None
  from assms show ?thesis
    unfolding upsertTable_new [OF None]
    by (auto dest!: evict_items_Some)
next
  case (Some r0)
  from assms show ?thesis
    unfolding upsertTable_old [OF Some]
    by (auto dest!: evict_items_Some)
qed

text \<open>
  The record of a key along a serial run: as long as it is not evicted, it counts the
  calls made for the key.
\<close>

lemma serialRun_key_stats:
  assumes "0 \<le> tabId"
    and "\<forall>c \<in> set cs. noFaults (c_env c)"
    and "items (getTabData sess tabId) k = None"
    and "\<forall>p \<in> set (prefixes cs). (\<exists>c \<in> set p. callKey c = k) \<longrightarrow>
           items (getTabData (serialRun tabId p sess) tabId) k \<noteq> None"
  shows "if (\<exists>c \<in> set cs. callKey c = k)
         then (\<exists>r. items (getTabData (serialRun tabId cs sess) tabId) k = Some r \<and>
                 finite (dom (statusCounts r)) \<and>
                 count r = length (filter (\<lambda>c. callKey c = k) cs) \<and>
                 lastSeen r = now (c_env (last (filter (\<lambda>c. callKey c = k) cs))) \<and>
                 statusTotal (statusCounts r) =
                   length (filter (\<lambda>c. callKey c = k \<and> c_status c \<noteq> None) cs))
         else items (getTabData (serialRun tabId cs sess) tabId) k = None"
  using assms(2,4)
proof (induction cs rule: rev_induct)
  case Nil
  show ?case by (simp add: assms(3) serialRun_Nil)
next
  case (snoc c cs)
  let ?d = "getTabData (serialRun tabId cs sess) tabId"
  let ?d' = "getTabData (serialRun tabId (cs @ [c]) sess) tabId"
  let ?t = "now (c_env c)"
  from snoc.prems(1) have oks: "\<forall>c \<in> set cs. noFaults (c_env c)" and okc: "noFaults (c_env c)"
    by simp_all
  from snoc.prems(2) have kept: "\<forall>p \<in> set (prefixes cs). (\<exists>c \<in> set p. callKey c = k) \<longrightarrow>
      items (getTabData (serialRun tabId p sess) tabId) k \<noteq> None"
    and last: "(\<exists>x \<in> set (cs @ [c]). callKey x = k) \<longrightarrow> items ?d' k \<noteq> None"
    by simp_all
  note ih = snoc.IH [OF oks kept]
  have d': "?d' = upsertTable (maxPerTab (settings (c_env c))) ?t (c_method c) (c_endpoint c)
                    (c_status c) (c_size c) ?d"
    using assms(1) okc by (rule serialRun_snoc_ok)
  show ?case
  proof (cases "callKey c = k")
    case True
    then have k: "k = makeKey (c_method c) (c_endpoint c)"
      by (simp add: callKey_def)
    from last True obtain r' where r': "items ?d' k = Some r'"
      by auto
    then have rec: "r' = updateRecord ?t (c_status c) (c_size c)
                     (case items ?d k of
                        None \<Rightarrow> newRecord k (c_method c) (c_endpoint c) ?t
                      | Some r \<Rightarrow> r)"
      unfolding d' k by (rule upsertTable_record)
    have ex: "\<exists>x \<in> set (cs @ [c]). callKey x = k"
      using True by simp
    have "finite (dom (statusCounts r')) \<and>
          count r' = length (filter (\<lambda>c. callKey c = k) (cs @ [c])) \<and>
          lastSeen r' = now (c_env (last (filter (\<lambda>c. callKey c = k) (cs @ [c])))) \<and>
          statusTotal (statusCounts r') =
            length (filter (\<lambda>c. callKey c = k \<and> c_status c \<noteq> None) (cs @ [c]))"
    proof (cases "\<exists>x \<in> set cs. callKey x = k")
      case True
      with ih obtain r where r: "items ?d k = Some r" "finite (dom (statusCounts r))"
          "count r = length (filter (\<lambda>c. callKey c = k) cs)"
          "statusTotal (statusCounts r) =
             length (filter (\<lambda>c. callKey c = k \<and> c_status c \<noteq> None) cs)"
        by auto
      have "r' = updateRecord ?t (c_status c) (c_size c) r"
        using rec by (simp add: r(1))
      then show ?thesis
        using \<open>callKey c = k\<close> r(3,4)
        by (simp add: updateRecord_count updateRecord_lastSeen updateRecord_finite [OF r(2)]
              updateRecord_statusTotal [OF r(2)])
    next
      case False
      with ih have none: "items ?d k = None"
        by auto
      have f0: "finite (dom (statusCounts (newRecord k (c_method c) (c_endpoint c) ?t)))"
        by (simp add: newRecord_def)
      have z: "count (newRecord k (c_method c) (c_endpoint c) ?t) = 0"
          "statusTotal (statusCounts (newRecord k (c_method c) (c_endpoint c) ?t)) = 0"
        by (simp_all add: newRecord_def statusTotal_empty)
      have e: "filter (\<lambda>c. callKey c = k) cs = []"
          "filter (\<lambda>c. callKey c = k \<and> c_status c \<noteq> None) cs = []"
        using False by (auto simp: filter_empty_conv)
      have "r' = updateRecord ?t (c_status c) (c_size c)
                   (newRecord k (c_method c) (c_endpoint c) ?t)"
        using rec by (simp add: none)
      then show ?thesis
        using \<open>callKey c = k\<close> e
        by (simp add: updateRecord_count updateRecord_lastSeen updateRecord_finite [OF f0]
              updateRecord_statusTotal [OF f0] z)
    qed
    with r' ex show ?thesis
      by (simp only: if_True) blast
  next
    case False
    then have k: "k \<noteq> makeKey (c_method c) (c_endpoint c)"
      by (auto simp: callKey_def)
    have same: "items ?d' k = Some r \<Longrightarrow> items ?d k = Some r" for r
      unfolding d' by (rule upsertTable_other_key [OF k])
    have f: "filter (\<lambda>c. callKey c = k) (cs @ [c]) = filter (\<lambda>c. callKey c = k) cs"
        "filter (\<lambda>c. callKey c = k \<and> c_status c \<noteq> None) (cs @ [c]) =
           filter (\<lambda>c. callKey c = k \<and> c_status c \<noteq> None) cs"
      using False by simp_all
    have ex: "(\<exists>x \<in> set (cs @ [c]). callKey x = k) \<longleftrightarrow> (\<exists>x \<in> set cs. callKey x = k)"
      using False by auto
    show ?thesis
    proof (cases "\<exists>x \<in> set cs. callKey x = k")
      case True
      with last ex obtain r' where r': "items ?d' k = Some r'"
        by auto
      then have "items ?d k = Some r'" by (rule same)
      with ih True have "finite (dom (statusCounts r')) \<and>
          count r' = length (filter (\<lambda>c. callKey c = k) cs) \<and>
          lastSeen r' = now (c_env (last (filter (\<lambda>c. callKey c = k) cs))) \<and>
          statusTotal (statusCounts r') =
            length (filter (\<lambda>c. callKey c = k \<and> c_status c \<noteq> None) cs)"
        by auto
      with r' True show ?thesis
        unfolding ex f by (simp only: if_True) blast
    next
      case False
      with ih have none: "items ?d k = None"
        by auto
      have "items ?d' k = None"
      proof (cases "items ?d' k")
        case None
        then show ?thesis .
      next
        case (Some r)
        then have "items ?d k = Some r" by (rule same)
        with none show ?thesis by simp
      qed
      with False show ?thesis
        unfolding ex by (simp only: if_False)
    qed
  qed
qed

lemmas serial_defs = serialRun_def runSteps_def serial_def upsertRead_def upsertWrite_def
  setTabData_def getTabData_def upsertTable_def evict_def splice_def makeKey_def newRecord_def
  updateRecord_def Let_def exampleEnv_def exampleCall_def

text \<open>
  Claim C1 as stated fails: the upsert reads the table, is suspended, and writes the table
  it has computed, with no lock in between. When two terminal events for the same key are
  delivered together, both upserts read the table without the key and the second write
  replaces the first: two events leave \<open>count = 1\<close>.
\<close>

theorem overlapping_upserts_lose_count_counterexample:
  "map_option count
     (items (getTabData (fst (runSteps 5
        [Read 0 (exampleCall 10 1 ''/a'' (Some ERR)), Read 1 (exampleCall 10 2 ''/a'' (Some ERR)),
         Write 0, Write 1] (Map.empty, Map.empty))) 5) ''GET /a'')
   = Some 1"
  by (simp add: serial_defs)

text \<open>
  Claim C1, amended. Take upserts on one tab with a non-negative id that do not overlap
  (each one writes before the next one reads), none of them rejected by storage, and a
  key that the table does not hold at the start and that is not evicted during the run
  (its record is there after each call from the first call for the key on). After the
  \<open>N > 0\<close> calls of the run for that key the record has \<open>count = N\<close> and \<open>lastSeen\<close>
  equal to the clock of the last of them; the sum of its \<open>statusCounts\<close> is the number
  of those calls with a non-null status, hence at most \<open>count\<close>, and less than \<open>count\<close>
  exactly when one of them carried a null status.
\<close>

theorem repeated_terminal_events_count:
  assumes "0 \<le> tabId"
    and "\<forall>c \<in> set cs. noFaults (c_env c)"
    and "items (getTabData sess tabId) (makeKey m e) = None"
    and "\<exists>c \<in> set cs. callKey c = makeKey m e"
    and "\<forall>p \<in> set (prefixes cs). (\<exists>c \<in> set p. callKey c = makeKey m e) \<longrightarrow>
           items (getTabData (serialRun tabId p sess) tabId) (makeKey m e) \<noteq> None"
  shows "\<exists>r. items (getTabData (serialRun tabId cs sess) tabId) (makeKey m e) = Some r \<and>
           count r = length (filter (\<lambda>c. callKey c = makeKey m e) cs) \<and>
           lastSeen r = now (c_env (last (filter (\<lambda>c. callKey c = makeKey m e) cs))) \<and>
           statusTotal (statusCounts r) =
             length (filter (\<lambda>c. callKey c = makeKey m e \<and> c_status c \<noteq> None) cs) \<and>
           statusTotal (statusCounts r) \<le> count r \<and>
           (statusTotal (statusCounts r) < count r \<longleftrightarrow>
              (\<exists>c \<in> set cs. callKey c = makeKey m e \<and> c_status c = None))"
proof -
  let ?k = "makeKey m e"
  let ?ks = "filter (\<lambda>c. callKey c = ?k) cs"
  from serialRun_key_stats [OF assms(1,2,3,5)] assms(4) obtain r where
    r: "items (getTabData (serialRun tabId cs sess) tabId) ?k = Some r"
    and n: "count r = length ?ks"
    and l: "lastSeen r = now (c_env (last ?ks))"
    and t: "statusTotal (statusCounts r) =
              length (filter (\<lambda>c. callKey c = ?k \<and> c_status c \<noteq> None) cs)"
    by (simp only: if_True) blast
  have ff: "filter (\<lambda>c. callKey c = ?k \<and> c_status c \<noteq> None) cs =
              filter (\<lambda>c. c_status c \<noteq> None) ?ks"
    by (simp add: conj_commute)
  have le: "statusTotal (statusCounts r) \<le> count r"
    unfolding t n ff by (rule length_filter_le)
  have "statusTotal (statusCounts r) < count r \<longleftrightarrow> (\<exists>c \<in> set ?ks. \<not> c_status c \<noteq> None)"
    unfolding t n ff by (rule length_filter_less_iff)
  then have lt: "statusTotal (statusCounts r) < count r \<longleftrightarrow>
      (\<exists>c \<in> set cs. callKey c = ?k \<and> c_status c = None)"
    by auto
  from r n l t le lt show ?thesis by blast
qed

theorem repeated_terminal_events_count_witness:
  "\<exists>r. items (getTabData (serialRun 5
           [exampleCall 10 1 ''/a'' (Some ERR), exampleCall 10 2 ''/b'' None,
            exampleCall 10 3 ''/a'' None, exampleCall 10 4 ''/a'' (Some ERR)] Map.empty) 5)
          ''GET /a'' = Some r \<and>
        count r = 3 \<and> lastSeen r = 4 \<and> statusTotal (statusCounts r) = 2 \<and>
        statusTotal (statusCounts r) < count r"
proof -
  let ?c1 = "exampleCall 10 1 ''/a'' (Some ERR)"
  let ?c2 = "exampleCall 10 2 ''/b'' None"
  let ?c3 = "exampleCall 10 3 ''/a'' None"
  let ?c4 = "exampleCall 10 4 ''/a'' (Some ERR)"
  let ?cs = "[?c1, ?c2, ?c3, ?c4]"
  have k: "makeKey ''GET'' ''/a'' = ''GET /a''"
    by (simp add: makeKey_def)
  have ck: "callKey ?c1 = ''GET /a''" "callKey ?c2 = ''GET /b''" "callKey ?c3 = ''GET /a''"
      "callKey ?c4 = ''GET /a''"
    by (simp_all add: callKey_def exampleCall_def makeKey_def)
  have h1: "(0::int) \<le> 5" by simp
  have h2: "\<forall>c \<in> set ?cs. noFaults (c_env c)"
    by (simp add: exampleCall_def exampleEnv_def noFaults_def)
  have h3: "items (getTabData Map.empty 5) (makeKey ''GET'' ''/a'') = None"
    by (simp add: getTabData_def)
  have h4: "\<exists>c \<in> set ?cs. callKey c = makeKey ''GET'' ''/a''"
    by (simp add: k ck)
  have p1: "items (getTabData (serialRun 5 [?c1] Map.empty) 5) ''GET /a'' \<noteq> None"
    by (simp add: serial_defs)
  have p2: "items (getTabData (serialRun 5 [?c1, ?c2] Map.empty) 5) ''GET /a'' \<noteq> None"
    by (simp add: serial_defs)
  have p3: "items (getTabData (serialRun 5 [?c1, ?c2, ?c3] Map.empty) 5) ''GET /a'' \<noteq> None"
    by (simp add: serial_defs)
  have p4: "items (getTabData (serialRun 5 ?cs Map.empty) 5) ''GET /a'' \<noteq> None"
    by (simp add: serial_defs)
  have h5: "\<forall>p \<in> set (prefixes ?cs). (\<exists>c \<in> set p. callKey c = makeKey ''GET'' ''/a'') \<longrightarrow>
              items (getTabData (serialRun 5 p Map.empty) 5) (makeKey ''GET'' ''/a'') \<noteq> None"
    unfolding k using p1 p2 p3 p4 by simp
  from repeated_terminal_events_count [OF h1 h2 h3 h4 h5] obtain r where
    a: "items (getTabData (serialRun 5 ?cs Map.empty) 5) (makeKey ''GET'' ''/a'') = Some r"
    and c: "count r = length (filter (\<lambda>c. callKey c = makeKey ''GET'' ''/a'') ?cs)"
    and l: "lastSeen r = now (c_env (last (filter (\<lambda>c. callKey c = makeKey ''GET'' ''/a'') ?cs)))"
    and t: "statusTotal (statusCounts r) =
              length (filter (\<lambda>c. callKey c = makeKey ''GET'' ''/a'' \<and> c_status c \<noteq> None) ?cs)"
    by blast
  have a': "items (getTabData (serialRun 5 ?cs Map.empty) 5) ''GET /a'' = Some r"
    using a by (simp only: k)
  have c': "count r = 3"
    using c by (simp add: k ck)
  have l': "lastSeen r = 4"
    using l by (simp add: k ck) (simp add: exampleCall_def exampleEnv_def)
  have t': "statusTotal (statusCounts r) = 2"
    using t by (simp add: k ck) (simp add: exampleCall_def)
  have "statusTotal (statusCounts r) < count r"
    by (simp add: c' t')
  with a' c' l' t' show ?thesis by blast
qed

section \<open>Eviction of the oldest inserted key\<close>

lemma evict_fits:
  "int (length (order d)) \<le> cap \<Longrightarrow> evict cap d = d"
  by (simp add: evict_def)

lemma upsertTable_new_key:
  assumes "0 \<le> cap" and "items d (makeKey m e) = None"
  shows "order (upsertTable cap t m e sc sz d) = take (nat cap) (makeKey m e # order d)"
    and "items (upsertTable cap t m e sc sz d) =
           ((items d)(makeKey m e \<mapsto> updateRecord t sc sz (newRecord (makeKey m e) m e t)))
             |` (- set (drop (nat cap) (makeKey m e # order d)))"
  unfolding upsertTable_new [OF assms(2)]
  by (simp_all add: evict_nonneg [OF assms(1)])

text \<open>
  While the distinct keys fit the capacity nothing is evicted: the table holds exactly the
  keys called so far, and the first key called is the last element of \<open>order\<close>.
\<close>

lemma serialRun_fill:
  assumes "0 \<le> tabId"
    and "getTabData sess tabId = \<lparr>items = Map.empty, order = []\<rparr>"
    and "\<forall>c \<in> set cs. callOk cap c"
    and "card (set (map callKey cs)) \<le> nat cap"
  shows "tabInv (getTabData (serialRun tabId cs sess) tabId) \<and>
         set (order (getTabData (serialRun tabId cs sess) tabId)) = set (map callKey cs) \<and>
         (cs \<noteq> [] \<longrightarrow>
            last (order (getTabData (serialRun tabId cs sess) tabId)) = callKey (hd cs))"
  using assms(3,4)
proof (induction cs rule: rev_induct)
  case Nil
  show ?case
    by (simp add: assms(2) tabInv_empty serialRun_Nil)
next
  case (snoc c cs)
  have sub: "set (map callKey cs) \<subseteq> set (map callKey (cs @ [c]))"
    by auto
  have "card (set (map callKey cs)) \<le> card (set (map callKey (cs @ [c])))"
    by (rule card_mono [OF _ sub]) simp
  with snoc.prems(2) have le: "card (set (map callKey cs)) \<le> nat cap"
    by simp
  from snoc.prems(1) have oks: "\<forall>c \<in> set cs. callOk cap c" and okc: "callOk cap c"
    by simp_all
  let ?d = "getTabData (serialRun tabId cs sess) tabId"
  from snoc.IH [OF oks le] have inv: "tabInv ?d"
    and keys: "set (order ?d) = set (map callKey cs)"
    and lst: "cs \<noteq> [] \<longrightarrow> last (order ?d) = callKey (hd cs)"
    by simp_all
  let ?k = "makeKey (c_method c) (c_endpoint c)"
  let ?d' = "upsertTable cap (now (c_env c)) (c_method c) (c_endpoint c) (c_status c) (c_size c) ?d"
  have nf: "noFaults (c_env c)" and cap: "maxPerTab (settings (c_env c)) = cap"
    using okc by (simp_all add: callOk_def)
  have step: "getTabData (serialRun tabId (cs @ [c]) sess) tabId = ?d'"
    by (simp add: serialRun_snoc_ok [OF assms(1) nf] cap)
  have len: "length (order ?d) = card (set (map callKey cs))"
    using inv keys by (metis distinct_card tabInv_def)
  have inv': "tabInv ?d'"
    using inv by (rule tabInv_upsertTable)
  have k: "callKey c = ?k"
    by (simp add: callKey_def)
  have fin: "set (order ?d') = set (map callKey (cs @ [c])) \<and>
        last (order ?d') = callKey (hd (cs @ [c]))"
  proof (cases "items ?d ?k")
    case None
    then have new: "?k \<notin> set (map callKey cs)"
      using inv keys by (auto simp: tabInv_def)
    then have "card (set (map callKey (cs @ [c]))) = Suc (card (set (map callKey cs)))"
      by (simp add: k)
    with snoc.prems(2) len have fits: "Suc (length (order ?d)) \<le> nat cap"
      by simp
    then have c0: "0 \<le> cap" by simp
    have o: "order ?d' = ?k # order ?d"
      using fits by (simp add: upsertTable_new_key(1) [OF c0 None])
    have e: "cs = [] \<longleftrightarrow> order ?d = []"
      using keys by (metis list.map_disc_iff set_empty)
    have st: "set (order ?d') = set (map callKey (cs @ [c]))"
      by (auto simp: o keys k)
    have "last (order ?d') = callKey (hd (cs @ [c]))"
    proof (cases "cs = []")
      case True
      with e have oe: "order ?d = []" by simp
      have "last (order ?d') = ?k"
        unfolding o oe by simp
      then show ?thesis by (simp add: True k)
    next
      case False
      with e have "order ?d \<noteq> []" by simp
      then show ?thesis using lst False by (simp add: o)
    qed
    with st show ?thesis by simp
  next
    case (Some r)
    then have old: "?k \<in> set (map callKey cs)"
      using inv keys by (auto simp: tabInv_def)
    then have ne: "cs \<noteq> []" by auto
    have same: "set (map callKey (cs @ [c])) = set (map callKey cs)"
      using old by (auto simp: k)
    have "0 < card (set (map callKey cs))"
      using old by (auto simp: card_gt_0_iff)
    with le len have fits: "int (length (order ?d)) \<le> cap"
      by linarith
    have "?d' = \<lparr>items = (items ?d)(?k \<mapsto> updateRecord (now (c_env c)) (c_status c) (c_size c) r),
                 order = order ?d\<rparr>"
      unfolding upsertTable_old [OF Some] by (rule evict_fits) (simp add: fits)
    then have o: "order ?d' = order ?d" by simp
    have "set (order ?d') = set (map callKey (cs @ [c]))"
      unfolding o keys same ..
    moreover have "last (order ?d') = callKey (hd (cs @ [c]))"
      using lst ne by (simp add: o)
    ultimately show ?thesis by simp
  qed
  show ?case
    unfolding step using inv' fin by simp
qed

lemma drop_to_last:
  assumes "length xs = Suc n"
  shows "drop n xs = [last xs]"
proof -
  from assms have ne: "xs \<noteq> []" by auto
  have "length (butlast xs) = n"
    using assms by simp
  then have "drop n (butlast xs @ [last xs]) = [last xs]"
    by simp
  then show ?thesis
    by (simp only: append_butlast_last_id [OF ne])
qed

lemma serialRun_overflow:
  assumes "0 \<le> tabId"
    and "getTabData sess tabId = \<lparr>items = Map.empty, order = []\<rparr>"
    and "\<forall>x \<in> set (pre @ [c]). callOk cap x"
    and "0 \<le> cap"
    and "card (set (map callKey pre)) = nat cap"
    and "callKey c \<notin> set (map callKey pre)"
  shows "dom (items (getTabData (serialRun tabId (pre @ [c]) sess) tabId)) =
             set (map callKey (pre @ [c])) - {callKey (hd (pre @ [c]))} \<and>
           set (order (getTabData (serialRun tabId (pre @ [c]) sess) tabId)) =
             dom (items (getTabData (serialRun tabId (pre @ [c]) sess) tabId)) \<and>
           card (dom (items (getTabData (serialRun tabId (pre @ [c]) sess) tabId))) = nat cap \<and>
           length (order (getTabData (serialRun tabId (pre @ [c]) sess) tabId)) = nat cap"
proof -
  from assms(3) have oks: "\<forall>x \<in> set pre. callOk cap x" and okc: "callOk cap c"
    by simp_all
  have le: "card (set (map callKey pre)) \<le> nat cap"
    using assms(5) by simp
  let ?d = "getTabData (serialRun tabId pre sess) tabId"
  from serialRun_fill [OF assms(1,2) oks le] have inv: "tabInv ?d"
    and keys: "set (order ?d) = set (map callKey pre)"
    and lst: "pre \<noteq> [] \<longrightarrow> last (order ?d) = callKey (hd pre)"
    by simp_all
  let ?k = "makeKey (c_method c) (c_endpoint c)"
  let ?r = "updateRecord (now (c_env c)) (c_status c) (c_size c)
              (newRecord ?k (c_method c) (c_endpoint c) (now (c_env c)))"
  let ?d' = "upsertTable cap (now (c_env c)) (c_method c) (c_endpoint c) (c_status c) (c_size c) ?d"
  have nf: "noFaults (c_env c)" and cap: "maxPerTab (settings (c_env c)) = cap"
    using okc by (simp_all add: callOk_def)
  have step: "getTabData (serialRun tabId (pre @ [c]) sess) tabId = ?d'"
    by (simp add: serialRun_snoc_ok [OF assms(1) nf] cap)
  have k: "callKey c = ?k"
    by (simp add: callKey_def)
  have dm: "dom (items ?d) = set (map callKey pre)"
    using inv keys by (simp add: tabInv_def)
  have none: "items ?d ?k = None"
    using assms(6) dm by (auto simp: k)
  have len: "length (order ?d) = nat cap"
    using inv keys assms(5) by (metis distinct_card tabInv_def)
  have e: "pre = [] \<longleftrightarrow> order ?d = []"
    using keys by (metis list.map_disc_iff set_empty)
  have lastk: "last (?k # order ?d) = callKey (hd (pre @ [c]))"
  proof (cases "pre = []")
    case True
    with e have oe: "order ?d = []" by simp
    have "last (?k # order ?d) = ?k"
      unfolding oe by simp
    then show ?thesis by (simp add: True k)
  next
    case False
    with e have "order ?d \<noteq> []" by simp
    then show ?thesis using lst False by simp
  qed
  have dr0: "drop (nat cap) (?k # order ?d) = [last (?k # order ?d)]"
    by (rule drop_to_last) (simp add: len)
  have dr: "drop (nat cap) (?k # order ?d) = [callKey (hd (pre @ [c]))]"
    unfolding lastk [symmetric] by (rule dr0)
  have o: "order ?d' = take (nat cap) (?k # order ?d)"
    by (rule upsertTable_new_key(1) [OF assms(4) none])
  have i: "items ?d' = ((items ?d)(?k \<mapsto> ?r)) |` (- {callKey (hd (pre @ [c]))})"
    using upsertTable_new_key(2) [OF assms(4) none] by (simp add: dr)
  have inv': "tabInv ?d'"
    using inv by (rule tabInv_upsertTable)
  have d1: "dom (items ?d') = set (map callKey (pre @ [c])) - {callKey (hd (pre @ [c]))}"
    unfolding i by (auto simp: dm k)
  have d2: "set (order ?d') = dom (items ?d')"
    using inv' by (simp add: tabInv_def)
  have d4: "length (order ?d') = nat cap"
    by (simp add: o len)
  have d3: "card (dom (items ?d')) = nat cap"
    using tabInv_card [OF inv'] d4 by simp
  show ?thesis
    unfolding step using d1 d2 d3 d4 by simp
qed

text \<open>
  Claim C2 as stated fails in its second half: three upserts for three new keys that are
  delivered together under a capacity of two all read the empty table, and each writes a
  table with its own key only; the last write stays, so one record is left, not two.
\<close>

theorem overlapping_inserts_counterexample:
  "dom (items (getTabData (fst (runSteps 5
         [Read 0 (exampleCall 2 1 ''/a'' None), Read 1 (exampleCall 2 2 ''/b'' None),
          Read 2 (exampleCall 2 3 ''/c'' None), Write 0, Write 1, Write 2]
         (Map.empty, Map.empty))) 5))
   = {''GET /c''}"
  by (simp add: serial_defs)

text \<open>
  Claim C2, amended. An upsert that inserts a new key, under a capacity \<open>cap \<ge> 0\<close>, puts
  the key in front of \<open>order\<close> and keeps the first \<open>cap\<close> elements: the keys past
  position \<open>cap\<close>, and no others, leave \<open>order\<close> and are deleted from \<open>items\<close> (none
  when the length does not exceed \<open>cap\<close>). Hence, on a fresh tab, upserts that do not
  overlap (each one writes before the next one reads), none rejected by storage, that
  bring in \<open>cap + 1\<close> distinct keys, the last call bringing the last new key, leave
  exactly \<open>cap\<close> records: those of all the keys but the one called first, however often
  that one was called again in between.
\<close>

theorem eviction_oldest_inserted:
  "(0 \<le> tabId \<and> noFaults env \<and> 0 \<le> maxPerTab (settings env) \<and>
    items (getTabData sess tabId) (makeKey m e) = None \<longrightarrow>
      upsertApiCall env tabId m e sc sz sess =
        Inr (sess(tabId \<mapsto>
          \<lparr>items = ((items (getTabData sess tabId))(makeKey m e \<mapsto>
                      updateRecord (now env) sc sz (newRecord (makeKey m e) m e (now env))))
                    |` (- set (drop (nat (maxPerTab (settings env)))
                                 (makeKey m e # order (getTabData sess tabId)))),
           order = take (nat (maxPerTab (settings env)))
                     (makeKey m e # order (getTabData sess tabId))\<rparr>))) \<and>
   (0 \<le> tabId \<and> getTabData sess tabId = \<lparr>items = Map.empty, order = []\<rparr> \<and>
    (\<forall>x \<in> set (pre @ [c]). callOk cap x) \<and> 0 \<le> cap \<and>
    card (set (map callKey pre)) = nat cap \<and> callKey c \<notin> set (map callKey pre) \<longrightarrow>
      (dom (items (getTabData (serialRun tabId (pre @ [c]) sess) tabId)) =
             set (map callKey (pre @ [c])) - {callKey (hd (pre @ [c]))} \<and>
           set (order (getTabData (serialRun tabId (pre @ [c]) sess) tabId)) =
             dom (items (getTabData (serialRun tabId (pre @ [c]) sess) tabId)) \<and>
           card (dom (items (getTabData (serialRun tabId (pre @ [c]) sess) tabId))) = nat cap \<and>
           length (order (getTabData (serialRun tabId (pre @ [c]) sess) tabId)) = nat cap))"
proof (rule conjI; rule impI)
  assume a: "0 \<le> tabId \<and> noFaults env \<and> 0 \<le> maxPerTab (settings env) \<and>
    items (getTabData sess tabId) (makeKey m e) = None"
  let ?d' = "upsertTable (maxPerTab (settings env)) (now env) m e sc sz (getTabData sess tabId)"
  have "?d' = \<lparr>items = items ?d', order = order ?d'\<rparr>"
    by simp
  also have "\<dots> = \<lparr>items = ((items (getTabData sess tabId))(makeKey m e \<mapsto>
                      updateRecord (now env) sc sz (newRecord (makeKey m e) m e (now env))))
                    |` (- set (drop (nat (maxPerTab (settings env)))
                                 (makeKey m e # order (getTabData sess tabId)))),
           order = take (nat (maxPerTab (settings env)))
                     (makeKey m e # order (getTabData sess tabId))\<rparr>"
    using a by (simp only: upsertTable_new_key)
  finally show "upsertApiCall env tabId m e sc sz sess =
        Inr (sess(tabId \<mapsto>
          \<lparr>items = ((items (getTabData sess tabId))(makeKey m e \<mapsto>
                      updateRecord (now env) sc sz (newRecord (makeKey m e) m e (now env))))
                    |` (- set (drop (nat (maxPerTab (settings env)))
                                 (makeKey m e # order (getTabData sess tabId)))),
           order = take (nat (maxPerTab (settings env)))
                     (makeKey m e # order (getTabData sess tabId))\<rparr>))"
    using a by (simp add: upsertApiCall_ok)
next
  assume "0 \<le> tabId \<and> getTabData sess tabId = \<lparr>items = Map.empty, order = []\<rparr> \<and>
    (\<forall>x \<in> set (pre @ [c]). callOk cap x) \<and> 0 \<le> cap \<and>
    card (set (map callKey pre)) = nat cap \<and> callKey c \<notin> set (map callKey pre)"
  then show "dom (items (getTabData (serialRun tabId (pre @ [c]) sess) tabId)) =
             set (map callKey (pre @ [c])) - {callKey (hd (pre @ [c]))} \<and>
           set (order (getTabData (serialRun tabId (pre @ [c]) sess) tabId)) =
             dom (items (getTabData (serialRun tabId (pre @ [c]) sess) tabId)) \<and>
           card (dom (items (getTabData (serialRun tabId (pre @ [c]) sess) tabId))) = nat cap \<and>
           length (order (getTabData (serialRun tabId (pre @ [c]) sess) tabId)) = nat cap"
    using serialRun_overflow by blast
qed

theorem eviction_oldest_inserted_witness:
  "upsertApiCall (exampleEnv 2 1) 5 ''GET'' ''/a'' None None Map.empty =
     Inr [5 \<mapsto> \<lparr>items = [''GET /a'' \<mapsto>
                      updateRecord 1 None None (newRecord ''GET /a'' ''GET'' ''/a'' 1)],
                 order = [''GET /a'']\<rparr>] \<and>
   dom (items (getTabData (serialRun 5
          [exampleCall 2 1 ''/a'' None, exampleCall 2 2 ''/b'' None,
           exampleCall 2 3 ''/a'' None, exampleCall 2 4 ''/c'' None] Map.empty) 5))
     = {''GET /b'', ''GET /c''} \<and>
   set (order (getTabData (serialRun 5
          [exampleCall 2 1 ''/a'' None, exampleCall 2 2 ''/b'' None,
           exampleCall 2 3 ''/a'' None, exampleCall 2 4 ''/c'' None] Map.empty) 5))
     = {''GET /b'', ''GET /c''} \<and>
   card (dom (items (getTabData (serialRun 5
          [exampleCall 2 1 ''/a'' None, exampleCall 2 2 ''/b'' None,
           exampleCall 2 3 ''/a'' None, exampleCall 2 4 ''/c'' None] Map.empty) 5))) = 2"
proof -
  let ?pre = "[exampleCall 2 1 ''/a'' None, exampleCall 2 2 ''/b'' None,
               exampleCall 2 3 ''/a'' None]"
  let ?c = "exampleCall 2 4 ''/c'' None"
  let ?d = "getTabData (serialRun 5 (?pre @ [?c]) Map.empty) 5"
  note inst = eviction_oldest_inserted [where tabId = 5 and env = "exampleEnv 2 1"
      and sess = Map.empty and m = "''GET''" and e = "''/a''" and sc = None and sz = None
      and pre = ?pre and c = ?c and cap = 2]
  have k: "map callKey ?pre = [''GET /a'', ''GET /b'', ''GET /a'']" "callKey ?c = ''GET /c''"
    by (simp_all add: callKey_def exampleCall_def makeKey_def)
  have a1: "(0::int) \<le> 5 \<and> noFaults (exampleEnv 2 1) \<and> 0 \<le> maxPerTab (settings (exampleEnv 2 1)) \<and>
            items (getTabData Map.empty 5) (makeKey ''GET'' ''/a'') = None"
    by (simp add: noFaults_def exampleEnv_def getTabData_def)
  have st: "set [''GET /a'', ''GET /b'', ''GET /a''] = {''GET /a'', ''GET /b''}"
    by auto
  have cd: "card (set [''GET /a'', ''GET /b'', ''GET /a'']) = nat 2"
    unfolding st by simp
  have nin: "''GET /c'' \<notin> set [''GET /a'', ''GET /b'', ''GET /a'']"
    by simp
  have oks: "\<forall>x \<in> set (?pre @ [?c]). callOk 2 x"
    by (simp add: callOk_def noFaults_def exampleCall_def exampleEnv_def)
  have b1: "(0::int) \<le> 5 \<and> getTabData Map.empty 5 = \<lparr>items = Map.empty, order = []\<rparr> \<and>
            (\<forall>x \<in> set (?pre @ [?c]). callOk 2 x) \<and> (0::int) \<le> 2 \<and>
            card (set (map callKey ?pre)) = nat 2 \<and> callKey ?c \<notin> set (map callKey ?pre)"
    unfolding k using cd nin oks by (simp only: getTabData_def) simp
  have a2: "upsertApiCall (exampleEnv 2 1) 5 ''GET'' ''/a'' None None Map.empty =
     Inr [5 \<mapsto> \<lparr>items = [''GET /a'' \<mapsto>
                      updateRecord 1 None None (newRecord ''GET /a'' ''GET'' ''/a'' 1)],
                 order = [''GET /a'']\<rparr>]"
    using inst [THEN conjunct1, rule_format, OF a1]
    by (simp add: exampleEnv_def getTabData_def makeKey_def)
  from inst [THEN conjunct2, rule_format, OF b1] have
    r: "dom (items ?d) = set (map callKey (?pre @ [?c])) - {callKey (hd (?pre @ [?c]))}"
      "set (order ?d) = dom (items ?d)"
      "card (dom (items ?d)) = nat 2"
    by blast+
  have h: "hd (?pre @ [?c]) = exampleCall 2 1 ''/a'' None"
    by simp
  have d: "dom (items ?d) = {''GET /b'', ''GET /c''}"
    unfolding r(1) h map_append k
    by (auto simp: callKey_def exampleCall_def makeKey_def)
  have o: "set (order ?d) = {''GET /b'', ''GET /c''}"
    using r(2) d by simp
  have c: "card (dom (items ?d)) = 2"
    using r(3) by simp
  show ?thesis
    using a2 d o c by simp
qed

end
